theory Spec2Isabelle
  imports Main
begin

section \<open>Data model of cpm.go\<close>

text \<open>
  A \<^verbatim>\<open>*GraphNode\<close> is a pointer; the program compares nodes by pointer identity only.
  A pointer is modelled as a natural number (its address), and the Go heap of an original
  graph as a total function from addresses to node structs. The field
  \<^verbatim>\<open>associated_clique\<close> is a pointer to a \<^verbatim>\<open>Clique\<close> cell and is \<^verbatim>\<open>nil\<close> for
  the nodes of an original graph: it is an option holding the \<^verbatim>\<open>nodes\<close> slice of the cell.

  The chains \<^verbatim>\<open>*CliqueCandidate\<close> and \<^verbatim>\<open>*Clique\<close> are singly linked lists whose cells
  carry a \<^verbatim>\<open>nodes\<close> slice; a chain is the list of its slices from the head, and
  \<^verbatim>\<open>nil\<close> is the empty list.

  The clique size \<^verbatim>\<open>k\<close> and the counters are Go \<^verbatim>\<open>int\<close>s (64 bits) and are modelled
  as integers. \<^verbatim>\<open>GetCliqueCandidates\<close> computes \<^verbatim>\<open>k - 1\<close> only behind the test
  \<^verbatim>\<open>k < 2\<close>, where it cannot wrap around. The counters count down from a slice length or
  up to at most the product of two slice lengths; they and the test against \<^verbatim>\<open>k - 1\<close> in
  \<^verbatim>\<open>Kminus1CommonNodes\<close> agree with the machine's as long as two cliques have fewer than
  \<open>2\<^sup>6\<^sup>3 - 1\<close> equal pairs.
\<close>

type_synonym ref = nat

record GraphNode =
  label :: string
  neighbors :: "ref list"
  associated_clique :: "ref list option"

type_synonym heap = "ref \<Rightarrow> GraphNode"

type_synonym CliqueCandidate = "ref list list"

type_synonym Clique = "ref list list"

definition NewGraphNode :: "string \<Rightarrow> ref list option \<Rightarrow> GraphNode" where
  "NewGraphNode lbl assoc_clique =
     \<lparr>label = lbl, neighbors = [], associated_clique = assoc_clique\<rparr>"

definition AddNeighbor :: "GraphNode \<Rightarrow> ref \<Rightarrow> GraphNode" where
  "AddNeighbor gn n = gn\<lparr>neighbors := neighbors gn @ [n]\<rparr>"

section \<open>Candidate generation\<close>

text \<open>
  \<^verbatim>\<open>IsDuplicate\<close> and \<^verbatim>\<open>GetCliqueCandidates\<close> compare node pointers and never
  dereference one, so they are stated for any type \<open>'a\<close> of pointer values: the graph
  functions use them with addresses, the slice store further down with cells that may
  also hold \<^verbatim>\<open>nil\<close>.

  \<^verbatim>\<open>IsDuplicate\<close>: for one \<^verbatim>\<open>item\<close> of the chain, \<^verbatim>\<open>match_count\<close> starts at
  \<^verbatim>\<open>len(cc.nodes)\<close>; for every \<^verbatim>\<open>ccnode\<close> the innermost loop searches
  \<^verbatim>\<open>item.nodes\<close> and stops at the first equal entry, after decrementing the counter and
  returning \<^verbatim>\<open>true\<close> when it reaches zero. \<open>IsDuplicate_search\<close> is that innermost
  loop: \<open>None\<close> is the \<^verbatim>\<open>return true\<close>, \<open>Some m\<close> the counter the loop is left with.
\<close>

fun IsDuplicate_search :: "'a \<Rightarrow> 'a list \<Rightarrow> int \<Rightarrow> int option" where
  "IsDuplicate_search ccnode [] match_count = Some match_count"
| "IsDuplicate_search ccnode (list_node # rest) match_count =
     (if list_node = ccnode
      then (if match_count - 1 = 0 then None else Some (match_count - 1))
      else IsDuplicate_search ccnode rest match_count)"

fun IsDuplicate_item :: "'a list \<Rightarrow> 'a list \<Rightarrow> int \<Rightarrow> bool" where
  "IsDuplicate_item [] item_nodes match_count = False"
| "IsDuplicate_item (ccnode # rest) item_nodes match_count =
     (case IsDuplicate_search ccnode item_nodes match_count of
        None \<Rightarrow> True
      | Some m \<Rightarrow> IsDuplicate_item rest item_nodes m)"

fun IsDuplicate :: "'a list \<Rightarrow> 'a list list \<Rightarrow> bool" where
  "IsDuplicate cc [] = False"
| "IsDuplicate cc (item # rest) =
     (if IsDuplicate_item cc item (int (length cc)) then True else IsDuplicate cc rest)"

text \<open>
  \<^verbatim>\<open>GetCliqueCandidates\<close>. \<open>GetCliqueCandidates_slots\<close> is the loop over the
  positions \<^verbatim>\<open>i\<close> of one \<^verbatim>\<open>item\<close>: a fresh copy of \<^verbatim>\<open>item.nodes\<close> gets the removed
  node at slot \<^verbatim>\<open>i\<close> and is pushed on the front of \<^verbatim>\<open>return_clique_list\<close> unless
  \<^verbatim>\<open>IsDuplicate\<close> finds it there. \<open>GetCliqueCandidates_items\<close> is the loop over the
  chain returned by the recursive call; pushing on the front of the return chain does not
  change the cells this loop walks. The last branch of \<open>GetCliqueCandidates\<close> reads
  \<^verbatim>\<open>node_list[0]\<close> of a list longer than \<open>k - 1 \<ge> 1\<close>, so the case of the empty list
  there is never reached.
\<close>

fun GetCliqueCandidates_slots ::
  "'a \<Rightarrow> 'a list \<Rightarrow> nat list \<Rightarrow> 'a list list \<Rightarrow> 'a list list" where
  "GetCliqueCandidates_slots node item_nodes [] return_clique_list = return_clique_list"
| "GetCliqueCandidates_slots node item_nodes (i # slots) return_clique_list =
     (let new_candidate = item_nodes[i := node]
      in if IsDuplicate new_candidate return_clique_list = False
         then GetCliqueCandidates_slots node item_nodes slots (new_candidate # return_clique_list)
         else GetCliqueCandidates_slots node item_nodes slots return_clique_list)"

fun GetCliqueCandidates_items ::
  "'a \<Rightarrow> 'a list list \<Rightarrow> 'a list list \<Rightarrow> 'a list list" where
  "GetCliqueCandidates_items node [] return_clique_list = return_clique_list"
| "GetCliqueCandidates_items node (item # rest) return_clique_list =
     GetCliqueCandidates_items node rest
       (GetCliqueCandidates_slots node item [0..<length item] return_clique_list)"

fun GetCliqueCandidates :: "int \<Rightarrow> 'a list \<Rightarrow> 'a list list" where
  "GetCliqueCandidates k node_list =
     (if k < 2 then []
      else if int (length node_list) < k - 1 then []
      else if int (length node_list) = k - 1 then [node_list]
      else (case node_list of
              [] \<Rightarrow> []
            | node # rest \<Rightarrow>
                (let clique_list = GetCliqueCandidates k rest
                 in GetCliqueCandidates_items node clique_list clique_list)))"

declare GetCliqueCandidates.simps [simp del]

section \<open>Clique verification\<close>

definition IsConnected :: "heap \<Rightarrow> ref \<Rightarrow> ref \<Rightarrow> bool" where
  "IsConnected h cn sn = (cn \<in> set (neighbors (h sn)))"

text \<open>
  \<^verbatim>\<open>MakeCliqueList\<close>: the loop over \<^verbatim>\<open>j\<close> compares \<^verbatim>\<open>item.nodes[i]\<close> with the
  entries after position \<^verbatim>\<open>i\<close> and clears the flag at the first one that is not
  connected; the loop over \<^verbatim>\<open>i\<close> runs while the flag is set. Verified candidates are
  pushed on the front of the clique chain, with the examination node in the last slot.
\<close>

fun MakeCliqueList_j :: "heap \<Rightarrow> ref \<Rightarrow> ref list \<Rightarrow> bool" where
  "MakeCliqueList_j h candidate_node [] = True"
| "MakeCliqueList_j h candidate_node (n # rest) =
     (if IsConnected h candidate_node n = False then False
      else MakeCliqueList_j h candidate_node rest)"

fun MakeCliqueList_i :: "heap \<Rightarrow> ref list \<Rightarrow> bool" where
  "MakeCliqueList_i h [] = True"
| "MakeCliqueList_i h (candidate_node # rest) =
     (if MakeCliqueList_j h candidate_node rest then MakeCliqueList_i h rest else False)"

fun MakeCliqueList_loop :: "heap \<Rightarrow> CliqueCandidate \<Rightarrow> ref \<Rightarrow> Clique \<Rightarrow> Clique" where
  "MakeCliqueList_loop h [] examination_node clique_list = clique_list"
| "MakeCliqueList_loop h (item # rest) examination_node clique_list =
     (if MakeCliqueList_i h item
      then MakeCliqueList_loop h rest examination_node ((item @ [examination_node]) # clique_list)
      else MakeCliqueList_loop h rest examination_node clique_list)"

definition MakeCliqueList :: "heap \<Rightarrow> CliqueCandidate \<Rightarrow> ref \<Rightarrow> Clique" where
  "MakeCliqueList h candidate_list examination_node =
     MakeCliqueList_loop h candidate_list examination_node []"

section \<open>Merging clique lists\<close>

text \<open>
  \<^verbatim>\<open>NotRecorded\<close>: items of another length are skipped; otherwise every equal pair
  (entry of the item, entry of the clique) decrements \<^verbatim>\<open>match_count\<close>, and the function
  returns \<^verbatim>\<open>false\<close> as soon as the counter is zero. Neither loop has a
  \<^verbatim>\<open>break\<close>. \<open>None\<close> stands for that return.
\<close>

fun NotRecorded_exam :: "ref \<Rightarrow> ref list \<Rightarrow> int \<Rightarrow> int option" where
  "NotRecorded_exam node [] match_count = Some match_count"
| "NotRecorded_exam node (exam_node # rest) match_count =
     (if exam_node = node
      then (if match_count - 1 = 0 then None else NotRecorded_exam node rest (match_count - 1))
      else NotRecorded_exam node rest match_count)"

fun NotRecorded_item :: "ref list \<Rightarrow> ref list \<Rightarrow> int \<Rightarrow> int option" where
  "NotRecorded_item [] clique_nodes match_count = Some match_count"
| "NotRecorded_item (node # rest) clique_nodes match_count =
     (case NotRecorded_exam node clique_nodes match_count of
        None \<Rightarrow> None
      | Some m \<Rightarrow> NotRecorded_item rest clique_nodes m)"

fun NotRecorded :: "ref list \<Rightarrow> Clique \<Rightarrow> bool" where
  "NotRecorded clique [] = True"
| "NotRecorded clique (item # rest) =
     (if length item \<noteq> length clique then NotRecorded clique rest
      else (case NotRecorded_item item clique (int (length item)) of
              None \<Rightarrow> False
            | Some m \<Rightarrow> NotRecorded clique rest))"

text \<open>
  \<^verbatim>\<open>MergeCliques\<close> appends, behind the last cell of the destination chain, a new cell
  for every source clique that \<^verbatim>\<open>NotRecorded\<close> does not find in the destination chain as
  it has grown so far. A \<^verbatim>\<open>nil\<close> destination returns \<^verbatim>\<open>nil\<close>. The two chains are
  taken to share no cell, as in \<^verbatim>\<open>main\<close>, where the source chain is fresh from
  \<^verbatim>\<open>MakeCliqueList\<close>. (\<^verbatim>\<open>AppendClique\<close> of the second program is the same function.)
\<close>

fun MergeCliques_loop :: "Clique \<Rightarrow> Clique \<Rightarrow> Clique" where
  "MergeCliques_loop dest_clique_list [] = dest_clique_list"
| "MergeCliques_loop dest_clique_list (clique # rest) =
     (if NotRecorded clique dest_clique_list = True
      then MergeCliques_loop (dest_clique_list @ [clique]) rest
      else MergeCliques_loop dest_clique_list rest)"

definition MergeCliques :: "Clique \<Rightarrow> Clique \<Rightarrow> Clique" where
  "MergeCliques dest_clique_list src_clique_list =
     (if dest_clique_list = [] then [] else MergeCliques_loop dest_clique_list src_clique_list)"

text \<open>
  The clique-finding loop of \<^verbatim>\<open>main\<close>: for every node of the graph, in order, the
  candidates of its neighbor list are verified; the first non-\<^verbatim>\<open>nil\<close> result is
  assigned to \<^verbatim>\<open>clique_list\<close>, later ones go through \<^verbatim>\<open>MergeCliques\<close>.
  \<open>main_merge\<close> is the conditional in the loop body.
\<close>

definition main_merge :: "Clique \<Rightarrow> Clique \<Rightarrow> Clique" where
  "main_merge clique_list temp_clique_list =
     (if clique_list = [] then temp_clique_list
      else MergeCliques clique_list temp_clique_list)"

fun main_cliques :: "heap \<Rightarrow> int \<Rightarrow> ref list \<Rightarrow> Clique \<Rightarrow> Clique" where
  "main_cliques h k [] clique_list = clique_list"
| "main_cliques h k (node # rest) clique_list =
     (let candidate_list = GetCliqueCandidates k (neighbors (h node))
      in if candidate_list \<noteq> []
         then main_cliques h k rest
                (main_merge clique_list (MakeCliqueList h candidate_list node))
         else main_cliques h k rest clique_list)"

section \<open>Auxiliary notions for the statements\<close>

text \<open>
  \<open>common_pairs a b\<close> is the number of pairs (position in \<open>a\<close>, position in \<open>b\<close>)
  holding the same node: what the counting loops of \<^verbatim>\<open>NotRecorded\<close> and
  \<^verbatim>\<open>Kminus1CommonNodes\<close> count when they run to the end.
\<close>

definition common_pairs :: "ref list \<Rightarrow> ref list \<Rightarrow> nat" where
  "common_pairs a b = sum_list (map (count_list b) a)"

text \<open>
  \<open>shares k a b\<close>: the two node slices have at least \<open>k - 1\<close> equal pairs, and
  \<open>k - 1\<close> is positive. This is what \<^verbatim>\<open>Kminus1CommonNodes\<close> decides for two nodes
  with these associated cliques.
\<close>

definition shares :: "int \<Rightarrow> ref list \<Rightarrow> ref list \<Rightarrow> bool" where
  "shares k a b = (1 \<le> k - 1 \<and> k - 1 \<le> int (common_pairs a b))"

section \<open>Community graph\<close>

text \<open>
  \<^verbatim>\<open>CreateLabel\<close> joins the labels of the clique's nodes with commas, reading them from
  the heap of the original graph.
\<close>

fun CreateLabel_loop :: "heap \<Rightarrow> ref list \<Rightarrow> nat \<Rightarrow> string \<Rightarrow> string" where
  "CreateLabel_loop h [] i new_label = new_label"
| "CreateLabel_loop h (item # rest) i new_label =
     CreateLabel_loop h rest (i + 1)
       (if i = 0 then label (h item) else new_label @ '','' @ label (h item))"

definition CreateLabel :: "heap \<Rightarrow> ref list \<Rightarrow> string" where
  "CreateLabel h nodes = CreateLabel_loop h nodes 0 []"

text \<open>
  \<^verbatim>\<open>Kminus1CommonNodes\<close> counts the equal pairs of the two associated cliques and returns
  \<^verbatim>\<open>true\<close> the moment the count equals \<^verbatim>\<open>k - 1\<close>; in the two loop functions
  \<open>None\<close> is that return and \<open>Some c\<close> the count the loop ends with. Dereferencing a
  \<^verbatim>\<open>nil\<close> \<^verbatim>\<open>associated_clique\<close> panics: the result \<open>None\<close> of
  \<open>Kminus1CommonNodes\<close> is the panic. The range expression of the inner loop is
  evaluated once per iteration of the outer loop, hence not at all when the first clique
  has no node.
\<close>

fun Kminus1CommonNodes_common :: "ref \<Rightarrow> ref list \<Rightarrow> int \<Rightarrow> int \<Rightarrow> int option" where
  "Kminus1CommonNodes_common exam_node [] k common_node_count = Some common_node_count"
| "Kminus1CommonNodes_common exam_node (common_node # rest) k common_node_count =
     (if exam_node = common_node
      then (if common_node_count + 1 = k - 1 then None
            else Kminus1CommonNodes_common exam_node rest k (common_node_count + 1))
      else Kminus1CommonNodes_common exam_node rest k common_node_count)"

fun Kminus1CommonNodes_exam :: "ref list \<Rightarrow> ref list \<Rightarrow> int \<Rightarrow> int \<Rightarrow> int option" where
  "Kminus1CommonNodes_exam [] node_nodes k common_node_count = Some common_node_count"
| "Kminus1CommonNodes_exam (exam_node # rest) node_nodes k common_node_count =
     (case Kminus1CommonNodes_common exam_node node_nodes k common_node_count of
        None \<Rightarrow> None
      | Some c \<Rightarrow> Kminus1CommonNodes_exam rest node_nodes k c)"

definition Kminus1CommonNodes :: "GraphNode \<Rightarrow> GraphNode \<Rightarrow> int \<Rightarrow> bool option" where
  "Kminus1CommonNodes gn node k =
     (case associated_clique gn of
        None \<Rightarrow> None
      | Some gn_nodes \<Rightarrow>
          if gn_nodes = [] then Some False
          else (case associated_clique node of
                  None \<Rightarrow> None
                | Some node_nodes \<Rightarrow>
                    Some (Kminus1CommonNodes_exam gn_nodes node_nodes k 0 = None)))"

text \<open>
  The community graph is a fresh slice of fresh nodes. Its nodes are kept in a list, in
  slice order, and a pointer to a community node is its position in that list: the
  comparison \<^verbatim>\<open>gn != node\<close> of \<^verbatim>\<open>AddNeighbors\<close> compares positions, and the
  neighbor lists of community nodes hold positions. \<open>AddNeighbors_loop\<close> walks the
  positions still to visit; \<open>None\<close> is the panic of \<^verbatim>\<open>Kminus1CommonNodes\<close>.
\<close>

fun AddNeighbors_loop :: "GraphNode list \<Rightarrow> nat list \<Rightarrow> nat \<Rightarrow> int \<Rightarrow> GraphNode list option" where
  "AddNeighbors_loop graph [] gn k = Some graph"
| "AddNeighbors_loop graph (node # rest) gn k =
     (if gn \<noteq> node
      then (case Kminus1CommonNodes (graph ! gn) (graph ! node) k of
              None \<Rightarrow> None
            | Some True \<Rightarrow>
                AddNeighbors_loop (graph[gn := AddNeighbor (graph ! gn) node]) rest gn k
            | Some False \<Rightarrow> AddNeighbors_loop graph rest gn k)
      else AddNeighbors_loop graph rest gn k)"

definition AddNeighbors :: "GraphNode list \<Rightarrow> nat \<Rightarrow> int \<Rightarrow> GraphNode list option" where
  "AddNeighbors graph gn k = AddNeighbors_loop graph [0..<length graph] gn k"

fun CreateCommunityGraph_loop :: "GraphNode list \<Rightarrow> nat list \<Rightarrow> int \<Rightarrow> GraphNode list option" where
  "CreateCommunityGraph_loop community_graph [] k = Some community_graph"
| "CreateCommunityGraph_loop community_graph (node # rest) k =
     (case AddNeighbors community_graph node k of
        None \<Rightarrow> None
      | Some g \<Rightarrow> CreateCommunityGraph_loop g rest k)"

definition CreateCommunityGraph :: "heap \<Rightarrow> Clique \<Rightarrow> int \<Rightarrow> GraphNode list option" where
  "CreateCommunityGraph h clique_list k =
     (if clique_list = [] then Some []
      else (let community_graph =
                  map (\<lambda>item. NewGraphNode (CreateLabel h item) (Some item)) clique_list
            in CreateCommunityGraph_loop community_graph [0..<length community_graph] k))"

text \<open>
  The model graph of the second program's \<^verbatim>\<open>main\<close>: node \<^verbatim>\<open>v\<close>\<open>i\<close> lives at address
  \<open>i\<close>, with the neighbor lists in the order \<^verbatim>\<open>main\<close> appends them.
\<close>

definition model_node :: "string \<Rightarrow> ref list \<Rightarrow> GraphNode" where
  "model_node lbl ns = (NewGraphNode lbl None)\<lparr>neighbors := ns\<rparr>"

definition model_heap :: heap where
  "model_heap = (\<lambda>_. NewGraphNode [] None)
     (1 := model_node ''v1'' [2, 3],
      2 := model_node ''v2'' [1, 3],
      3 := model_node ''v3'' [1, 2, 4, 5],
      4 := model_node ''v4'' [3, 5, 6, 7],
      5 := model_node ''v5'' [3, 4, 6, 7],
      6 := model_node ''v6'' [4, 5, 7, 8],
      7 := model_node ''v7'' [4, 5, 6, 8],
      8 := model_node ''v8'' [6, 7, 9, 10],
      9 := model_node ''v9'' [8, 10],
      10 := model_node ''v10'' [8, 9])"

definition model_graph :: "ref list" where
  "model_graph = [1, 2, 3, 4, 5, 6, 7, 8, 9, 10]"

text \<open>
  A graph with a self loop and a repeated neighbor entry, as the graph definition file
  with the two lines \<^verbatim>\<open>a: a b b\<close> and \<^verbatim>\<open>b: a b\<close> gives it: node \<^verbatim>\<open>a\<close> lives at
  address 0 and node \<^verbatim>\<open>b\<close> at address 1.
\<close>

definition looped_heap :: heap where
  "looped_heap = (\<lambda>_. NewGraphNode [] None)
     (0 := model_node ''a'' [0, 1, 1],
      1 := model_node ''b'' [0, 1])"

section \<open>Slices in a store of backing arrays\<close>

text \<open>
  For the effect of \<^verbatim>\<open>GetCliqueCandidates\<close> on its argument the slices are modelled with
  their backing arrays. A store is the list of the arrays allocated so far; the address of
  an array is its position in the store, and an array is the list of its cells (a cell
  holds a node pointer or \<^verbatim>\<open>nil\<close>, which is \<open>None\<close>). A slice is the address of its
  array, the position of its first cell and its length.
  \<^verbatim>\<open>node_list[1:]\<close> is a slice of the same array; \<^verbatim>\<open>make\<close> adds a new array of
  \<^verbatim>\<open>nil\<close> cells to the store; an assignment \<^verbatim>\<open>s[i] = v\<close> writes one cell of the array of \<open>s\<close>.
  Every index the function uses is within the length of its slice, since the loops range
  over that length and the first cell is read only from a list longer than \<open>k - 1 \<ge> 1\<close>.
\<close>

record slice =
  array :: nat
  low :: nat
  len :: nat

type_synonym store = "ref option list list"

definition slice_nodes :: "store \<Rightarrow> slice \<Rightarrow> ref option list" where
  "slice_nodes st s = take (len s) (drop (low s) (st ! array s))"

definition slice_get :: "store \<Rightarrow> slice \<Rightarrow> nat \<Rightarrow> ref option" where
  "slice_get st s i = st ! array s ! (low s + i)"

definition slice_set :: "store \<Rightarrow> slice \<Rightarrow> nat \<Rightarrow> ref option \<Rightarrow> store" where
  "slice_set st s i v = st[array s := (st ! array s)[low s + i := v]]"

definition slice_from_1 :: "slice \<Rightarrow> slice" where
  "slice_from_1 s = \<lparr>array = array s, low = low s + 1, len = len s - 1\<rparr>"

definition make_slice :: "store \<Rightarrow> nat \<Rightarrow> store \<times> slice" where
  "make_slice st n =
     (st @ [replicate n None], \<lparr>array = length st, low = 0, len = n\<rparr>)"

text \<open>
  \<^verbatim>\<open>GetCliqueCandidates\<close> on the store. The candidate chain is the list of the
  \<^verbatim>\<open>nodes\<close> slices of its cells. \<open>GetCliqueCandidates_copy_st\<close> is the loop
  \<^verbatim>\<open>for k, v := range item.nodes\<close> that fills the new slice. \<^verbatim>\<open>IsDuplicate\<close> only
  reads: it is the function \<open>IsDuplicate\<close> on the contents of the slices.
\<close>

fun GetCliqueCandidates_copy_st :: "store \<Rightarrow> slice \<Rightarrow> slice \<Rightarrow> nat list \<Rightarrow> store" where
  "GetCliqueCandidates_copy_st st item new_candidate [] = st"
| "GetCliqueCandidates_copy_st st item new_candidate (k # ks) =
     GetCliqueCandidates_copy_st
       (slice_set st new_candidate k (slice_get st item k)) item new_candidate ks"

fun GetCliqueCandidates_slots_st ::
  "store \<Rightarrow> ref option \<Rightarrow> slice \<Rightarrow> nat list \<Rightarrow> slice list \<Rightarrow> store \<times> slice list" where
  "GetCliqueCandidates_slots_st st node item [] return_clique_list = (st, return_clique_list)"
| "GetCliqueCandidates_slots_st st node item (i # slots) return_clique_list =
     (case make_slice st (len item) of
        (st1, new_candidate) \<Rightarrow>
          (let st2 = GetCliqueCandidates_copy_st st1 item new_candidate [0..<len item];
               st3 = slice_set st2 new_candidate i node
           in if IsDuplicate (slice_nodes st3 new_candidate)
                   (map (slice_nodes st3) return_clique_list) = False
              then GetCliqueCandidates_slots_st st3 node item slots
                     (new_candidate # return_clique_list)
              else GetCliqueCandidates_slots_st st3 node item slots return_clique_list))"

fun GetCliqueCandidates_items_st ::
  "store \<Rightarrow> ref option \<Rightarrow> slice list \<Rightarrow> slice list \<Rightarrow> store \<times> slice list" where
  "GetCliqueCandidates_items_st st node [] return_clique_list = (st, return_clique_list)"
| "GetCliqueCandidates_items_st st node (item # rest) return_clique_list =
     (case GetCliqueCandidates_slots_st st node item [0..<len item] return_clique_list of
        (st1, ret1) \<Rightarrow> GetCliqueCandidates_items_st st1 node rest ret1)"

function GetCliqueCandidates_st :: "int \<Rightarrow> store \<Rightarrow> slice \<Rightarrow> store \<times> slice list" where
  "GetCliqueCandidates_st k st node_list =
     (if k < 2 then (st, [])
      else if int (len node_list) < k - 1 then (st, [])
      else if int (len node_list) = k - 1 then (st, [node_list])
      else (let node = slice_get st node_list 0
            in (case GetCliqueCandidates_st k st (slice_from_1 node_list) of
                  (st1, clique_list) \<Rightarrow>
                    GetCliqueCandidates_items_st st1 node clique_list clique_list)))"
  by pat_completeness auto
termination
  by (relation "measure (\<lambda>(k, st, node_list). len node_list)") (auto simp: slice_from_1_def)

declare GetCliqueCandidates_st.simps [simp del]

text \<open>
  A store with the neighbor list of \<^verbatim>\<open>v5\<close> of the model graph in the array at address 0,
  and the slice of the whole array.
\<close>

definition v5_store :: store where
  "v5_store = [[Some 3, Some 4, Some 6, Some 7]]"

definition v5_neighbors :: slice where
  "v5_neighbors = \<lparr>array = 0, low = 0, len = 4\<rparr>"

text \<open>
  \<open>frame st st'\<close>: the store \<open>st'\<close> has the arrays of \<open>st\<close>, unchanged, and possibly new
  ones. \<open>wf_slice st s\<close>: the array of the slice \<open>s\<close> is allocated in \<open>st\<close> and holds the
  cells of \<open>s\<close>.
\<close>

definition frame :: "store \<Rightarrow> store \<Rightarrow> bool" where
  "frame st st' = (length st \<le> length st' \<and> (\<forall>a < length st. st' ! a = st ! a))"

definition wf_slice :: "store \<Rightarrow> slice \<Rightarrow> bool" where
  "wf_slice st s = (array s < length st \<and> low s + len s \<le> length (st ! array s))"

section \<open>The graph definition parser\<close>

text \<open>
  \<^verbatim>\<open>ParseGraphDefFile\<close> uses the Go library for the file, the two regular expressions,
  the runes of a string and \<^verbatim>\<open>unicode.IsSpace\<close>. These are parameters of the model:
  \<^item> the file is \<open>None\<close> when \<^verbatim>\<open>os.Open\<close> fails, and otherwise the results
    (\<^verbatim>\<open>line\<close>, \<^verbatim>\<open>isPrefix\<close>) of the calls of \<^verbatim>\<open>ReadLine\<close> before the first one that
    returns an error;
  \<^item> \<open>node_def_re\<close> gives the two groups of
    \<^verbatim>\<open>node_def_re.FindStringSubmatchIndex\<close> cut out of the line, \<open>None\<close> for
    \<^verbatim>\<open>nil\<close>; \<open>node_no_neighbors_re\<close> gives the one group of the second expression;
  \<^item> \<open>runes\<close> gives the runes that \<^verbatim>\<open>range\<close> finds in a string and \<open>IsSpace\<close> is
    \<^verbatim>\<open>unicode.IsSpace\<close>.

  The nodes of the parsed graph are kept in a list in slice order, and a pointer to a node
  is its position in the list, as for the community graph. The function returns its graph
  together with the error, as the Go function does on every path.
\<close>

datatype parse_error =
  OpenError
| DuplicateNode string
| SyntaxError nat
| DoesntExist string

record 'r stdlib =
  node_def_re :: "string \<Rightarrow> (string \<times> string) option"
  node_no_neighbors_re :: "string \<Rightarrow> string option"
  runes :: "string \<Rightarrow> 'r list"
  IsSpace :: "'r \<Rightarrow> bool"

record NeighborSpec =
  spec_node :: nat
  neighbor_str :: string

fun GetNode_from :: "GraphNode list \<Rightarrow> nat \<Rightarrow> string \<Rightarrow> nat option" where
  "GetNode_from [] i lbl = None"
| "GetNode_from (n # rest) i lbl =
     (if label n = lbl then Some i else GetNode_from rest (Suc i) lbl)"

definition GetNode :: "GraphNode list \<Rightarrow> string \<Rightarrow> nat option" where
  "GetNode g lbl = GetNode_from g 0 lbl"

text \<open>
  \<^verbatim>\<open>strings.Split(s, " ")\<close>: the pieces of \<open>s\<close> between its spaces, one more than
  there are spaces (the result is never empty, so the first case of the inner
  \<^theory_text>\<open>case\<close> is never reached).
\<close>

fun Split :: "string \<Rightarrow> string list" where
  "Split [] = [[]]"
| "Split (c # cs) =
     (if c = CHR '' '' then [] # Split cs
      else (case Split cs of [] \<Rightarrow> [[c]] | piece # pieces \<Rightarrow> (c # piece) # pieces))"

text \<open>
  The loop over the lines. A line with \<^verbatim>\<open>isPrefix\<close> set is skipped and not counted.
  The test \<^verbatim>\<open>graph == nil\<close> follows the \<^verbatim>\<open>append\<close> of the new node; a slice that has
  just been appended to is not \<^verbatim>\<open>nil\<close>, which the model renders as the test of the
  appended list for emptiness.
\<close>

fun ParseGraphDefFile_lines ::
  "'r stdlib \<Rightarrow> (string \<times> bool) list \<Rightarrow> GraphNode list \<Rightarrow> NeighborSpec list \<Rightarrow> nat \<Rightarrow>
   (GraphNode list \<times> parse_error) + (GraphNode list \<times> NeighborSpec list)" where
  "ParseGraphDefFile_lines lib [] graph neighbor_spec_list line_count =
     Inr (graph, neighbor_spec_list)"
| "ParseGraphDefFile_lines lib ((line, isPrefix) # rest) graph neighbor_spec_list line_count =
     (if isPrefix = False
      then (case node_def_re lib line of
              Some (add_node_label, neighbors_str) \<Rightarrow>
                (let new_node = NewGraphNode add_node_label None;
                     graph1 = graph @ [new_node]
                 in if graph1 = [] then Inl (graph1, DuplicateNode (label new_node))
                    else (let neighbors_defined =
                                list_ex (\<lambda>c. IsSpace lib c = False) (runes lib neighbors_str);
                              specs1 =
                                (if neighbors_defined = True
                                 then neighbor_spec_list @
                                        [\<lparr>spec_node = length graph, neighbor_str = neighbors_str\<rparr>]
                                 else neighbor_spec_list)
                          in ParseGraphDefFile_lines lib rest graph1 specs1 (line_count + 1)))
            | None \<Rightarrow>
                (case node_no_neighbors_re lib line of
                   None \<Rightarrow> Inl (graph, SyntaxError line_count)
                 | Some add_node_label \<Rightarrow>
                     ParseGraphDefFile_lines lib rest
                       (graph @ [NewGraphNode add_node_label None]) neighbor_spec_list
                       (line_count + 1)))
      else ParseGraphDefFile_lines lib rest graph neighbor_spec_list line_count)"

fun ParseGraphDefFile_neighbors ::
  "GraphNode list \<Rightarrow> nat \<Rightarrow> string list \<Rightarrow> (GraphNode list \<times> parse_error) + GraphNode list" where
  "ParseGraphDefFile_neighbors graph n [] = Inr graph"
| "ParseGraphDefFile_neighbors graph n (neighbor_label # rest) =
     (case GetNode graph neighbor_label of
        None \<Rightarrow> Inl (graph, DoesntExist neighbor_label)
      | Some nn \<Rightarrow>
          ParseGraphDefFile_neighbors (graph[n := AddNeighbor (graph ! n) nn]) n rest)"

fun ParseGraphDefFile_specs ::
  "GraphNode list \<Rightarrow> NeighborSpec list \<Rightarrow> (GraphNode list \<times> parse_error) + GraphNode list" where
  "ParseGraphDefFile_specs graph [] = Inr graph"
| "ParseGraphDefFile_specs graph (ns # rest) =
     (case ParseGraphDefFile_neighbors graph (spec_node ns) (Split (neighbor_str ns)) of
        Inl e \<Rightarrow> Inl e
      | Inr graph1 \<Rightarrow> ParseGraphDefFile_specs graph1 rest)"

definition ParseGraphDefFile ::
  "'r stdlib \<Rightarrow> (string \<times> bool) list option \<Rightarrow> GraphNode list \<times> parse_error option" where
  "ParseGraphDefFile lib file =
     (case file of
        None \<Rightarrow> ([], Some OpenError)
      | Some reads \<Rightarrow>
          (case ParseGraphDefFile_lines lib reads [] [] 1 of
             Inl (graph, e) \<Rightarrow> (graph, Some e)
           | Inr (graph, neighbor_spec_list) \<Rightarrow>
               (case ParseGraphDefFile_specs graph neighbor_spec_list of
                  Inl (graph1, e) \<Rightarrow> (graph1, Some e)
                | Inr graph1 \<Rightarrow> (graph1, None))))"

text \<open>
  The library on lines of ASCII characters. In the syntax of Go's regular expressions
  \<^verbatim>\<open>\s\<close> is one of tab, newline, form feed, carriage return and space, and \<^verbatim>\<open>\w\<close> is a
  letter, a digit or the underscore. A match of \<^verbatim>\<open>\s*(\w+):\s*(.+)\<close> that starts at a
  given position takes all the white space there, then all the word characters (at least
  one), then the colon, and the second group is the rest of the line behind the white
  space after the colon; when nothing is left there, the second group is the last of those
  white space characters, and with no white space either there is no match from this
  position. The search returns the match of the leftmost position that has one.
  \<^verbatim>\<open>unicode.IsSpace\<close> holds of the ASCII characters tab, newline, vertical tab, form feed,
  carriage return and space. On a line with other bytes Go decodes runes and counts
  further code points as white space (U+0085 and U+00A0 among them); \<open>ascii_lib\<close> does
  not describe such lines.
\<close>

definition re_space :: "char \<Rightarrow> bool" where
  "re_space c = (c \<in> set [CHR 0x09, CHR 0x0A, CHR 0x0C, CHR 0x0D, CHR 0x20])"

definition re_word :: "char \<Rightarrow> bool" where
  "re_word c =
     (let n = (of_char c :: nat)
      in (48 \<le> n \<and> n \<le> 57) \<or> (65 \<le> n \<and> n \<le> 90) \<or> (97 \<le> n \<and> n \<le> 122) \<or> n = 95)"

definition node_def_here :: "string \<Rightarrow> (string \<times> string) option" where
  "node_def_here s =
     (let s1 = dropWhile re_space s;
          w = takeWhile re_word s1
      in if w = [] then None
         else (case dropWhile re_word s1 of
                 [] \<Rightarrow> None
               | c # s3 \<Rightarrow>
                   if c \<noteq> CHR '':'' then None
                   else (let ws = takeWhile re_space s3;
                             r = dropWhile re_space s3
                         in if r \<noteq> [] then Some (w, r)
                            else if ws \<noteq> [] then Some (w, [last ws])
                            else None)))"

fun ascii_node_def_re :: "string \<Rightarrow> (string \<times> string) option" where
  "ascii_node_def_re [] = node_def_here []"
| "ascii_node_def_re (c # s) =
     (case node_def_here (c # s) of Some m \<Rightarrow> Some m | None \<Rightarrow> ascii_node_def_re s)"

definition node_no_neighbors_here :: "string \<Rightarrow> string option" where
  "node_no_neighbors_here s =
     (let s1 = dropWhile re_space s;
          w = takeWhile re_word s1
      in if w = [] then None
         else (case dropWhile re_word s1 of
                 [] \<Rightarrow> None
               | c # s3 \<Rightarrow> if c \<noteq> CHR '':'' then None else Some w))"

fun ascii_node_no_neighbors_re :: "string \<Rightarrow> string option" where
  "ascii_node_no_neighbors_re [] = node_no_neighbors_here []"
| "ascii_node_no_neighbors_re (c # s) =
     (case node_no_neighbors_here (c # s) of
        Some m \<Rightarrow> Some m
      | None \<Rightarrow> ascii_node_no_neighbors_re s)"

definition ascii_IsSpace :: "char \<Rightarrow> bool" where
  "ascii_IsSpace c = (c \<in> set [CHR 0x09, CHR 0x0A, CHR 0x0B, CHR 0x0C, CHR 0x0D, CHR 0x20])"

definition ascii_lib :: "char stdlib" where
  "ascii_lib =
     \<lparr>node_def_re = ascii_node_def_re,
      node_no_neighbors_re = ascii_node_no_neighbors_re,
      runes = (\<lambda>s. s),
      IsSpace = ascii_IsSpace\<rparr>"






section \<open>Properties of merging: the counting loops and idempotence\<close>

lemma NotRecorded_append:
  "NotRecorded c (d @ e) = (NotRecorded c d \<and> NotRecorded c e)"
  by (induction d) (auto split: option.splits)

lemma common_pairs_simps [simp]:
  "common_pairs [] b = 0"
  "common_pairs (x # a) b = count_list b x + common_pairs a b"
  by (simp_all add: common_pairs_def)

lemma NotRecorded_exam_eq:
  "1 \<le> m \<Longrightarrow> NotRecorded_exam node c m =
     (if m \<le> int (count_list c node) then None else Some (m - int (count_list c node)))"
  by (induction c arbitrary: m) auto

lemma NotRecorded_item_eq:
  "1 \<le> m \<Longrightarrow> NotRecorded_item item c m =
     (if m \<le> int (common_pairs item c) then None else Some (m - int (common_pairs item c)))"
proof (induction item arbitrary: m)
  case Nil
  then show ?case by simp
next
  case (Cons node rest)
  show ?case
  proof (cases "m \<le> int (count_list c node)")
    case True
    with Cons.prems show ?thesis by (simp add: NotRecorded_exam_eq)
  next
    case False
    then have "1 \<le> m - int (count_list c node)" by simp
    from Cons.IH [OF this] False Cons.prems show ?thesis
      by (simp add: NotRecorded_exam_eq) 
  qed
qed

lemma common_pairs_subset: "set item \<subseteq> set c \<Longrightarrow> length item \<le> common_pairs item c"
proof (induction item)
  case Nil
  then show ?case by simp
next
  case (Cons x item)
  from Cons.prems have "x \<in> set c" by simp
  then have "count_list c x \<noteq> 0" by (simp add: count_list_0_iff)
  with Cons show ?case by simp
qed

lemma NotRecorded_same_set:
  "item \<in> set d \<Longrightarrow> length item = length c \<Longrightarrow> set item \<subseteq> set c \<Longrightarrow> c \<noteq> [] \<Longrightarrow>
   NotRecorded c d = False"
proof (induction d)
  case Nil
  then show ?case by simp
next
  case (Cons x d)
  show ?case
  proof (cases "x = item")
    case True
    from Cons.prems have "1 \<le> int (length item)" by (cases c) auto
    moreover have "length item \<le> common_pairs item c"
      using Cons.prems by (intro common_pairs_subset)
    ultimately have "NotRecorded_item item c (int (length item)) = None"
      by (simp add: NotRecorded_item_eq)
    with True Cons.prems show ?thesis by simp
  next
    case False
    with Cons show ?thesis by (auto split: option.splits)
  qed
qed

lemma MergeCliques_loop_append:
  "\<exists>ys. MergeCliques_loop d src = d @ ys \<and> set ys \<subseteq> set src"
proof (induction src arbitrary: d)
  case Nil
  then show ?case by simp
next
  case (Cons c src)
  show ?case
  proof (cases "NotRecorded c d")
    case True
    from Cons.IH [of "d @ [c]"] obtain ys where
      "MergeCliques_loop (d @ [c]) src = (d @ [c]) @ ys" "set ys \<subseteq> set src" by blast
    with True show ?thesis by (intro exI [of _ "c # ys"]) auto
  next
    case False
    from Cons.IH [of d] obtain ys where
      "MergeCliques_loop d src = d @ ys" "set ys \<subseteq> set src" by blast
    with False show ?thesis by (intro exI [of _ ys]) auto
  qed
qed

lemma MergeCliques_loop_covers:
  "c \<in> set src \<Longrightarrow>
   c \<in> set (MergeCliques_loop d src) \<or> NotRecorded c (MergeCliques_loop d src) = False"
proof (induction src arbitrary: d)
  case Nil
  then show ?case by simp
next
  case (Cons x src)
  show ?case
  proof (cases "c = x")
    case True
    show ?thesis
    proof (cases "NotRecorded x d")
      case T: True
      obtain ys where "MergeCliques_loop (d @ [x]) src = (d @ [x]) @ ys"
        using MergeCliques_loop_append by blast
      with T True show ?thesis by simp
    next
      case F: False
      obtain ys where "MergeCliques_loop d src = d @ ys"
        using MergeCliques_loop_append by blast
      with F True show ?thesis by (simp add: NotRecorded_append)
    qed
  next
    case False
    with Cons.prems have "c \<in> set src" by simp
    then show ?thesis using Cons.IH by simp
  qed
qed

lemma MergeCliques_loop_again:
  "\<forall>c \<in> set src. c \<in> set d \<or> NotRecorded c d = False \<Longrightarrow>
   set (MergeCliques_loop d src) = set d"
proof (induction src arbitrary: d)
  case Nil
  then show ?case by simp
next
  case (Cons x src)
  show ?case
  proof (cases "NotRecorded x d")
    case True
    with Cons.prems have xd: "x \<in> set d" by auto
    have "\<forall>c \<in> set src. c \<in> set (d @ [x]) \<or> NotRecorded c (d @ [x]) = False"
      using Cons.prems by (auto simp: NotRecorded_append)
    from Cons.IH [OF this] True xd show ?thesis by auto
  next
    case False
    have "\<forall>c \<in> set src. c \<in> set d \<or> NotRecorded c d = False"
      using Cons.prems by auto
    from Cons.IH [OF this] False show ?thesis by simp
  qed
qed

text \<open>
  Claim C7. For a non-empty global clique list and any incoming clique list, merging the
  incoming list once more after it has been merged leaves the member sets found in the
  global list as they were. (The proof shows that the second merge appends only node
  slices that are already in the list.)
\<close>

theorem MergeCliques_idempotent:
  "global \<noteq> [] \<Longrightarrow>
   set (map set (MergeCliques (MergeCliques global incoming) incoming)) =
   set (map set (MergeCliques global incoming))"
proof -
  assume g: "global \<noteq> []"
  let ?g' = "MergeCliques_loop global incoming"
  obtain ys where ys: "?g' = global @ ys" using MergeCliques_loop_append by blast
  with g have ne: "?g' \<noteq> []" by simp
  have "\<forall>c \<in> set incoming. c \<in> set ?g' \<or> NotRecorded c ?g' = False"
    using MergeCliques_loop_covers by blast
  then have "set (MergeCliques_loop ?g' incoming) = set ?g'"
    by (rule MergeCliques_loop_again)
  with g ne show ?thesis by (simp add: MergeCliques_def)
qed

theorem MergeCliques_idempotent_witness:
  "[[1, 2, 3]] \<noteq> ([] :: Clique) \<and>
   set (map set (MergeCliques (MergeCliques [[1, 2, 3]] [[3, 2, 1], [3, 4, 5]]) [[3, 2, 1], [3, 4, 5]])) =
   set (map set (MergeCliques [[1, 2, 3]] [[3, 2, 1], [3, 4, 5]])) \<and>
   MergeCliques [[1, 2, 3]] [[3, 2, 1], [3, 4, 5]] = [[1, 2, 3], [3, 4, 5]]"
  using MergeCliques_idempotent [of "[[1, 2, 3]]" "[[3, 2, 1], [3, 4, 5]]"]
  by (simp add: MergeCliques_def)

text \<open>
  Claim C6, as stated, fails for \<^verbatim>\<open>MergeCliques\<close> itself: merging the one-clique list
  \<open>[[1, 2, 3]]\<close> into the \<^verbatim>\<open>nil\<close> global list returns \<^verbatim>\<open>nil\<close>, whose member sets
  are not those of the incoming list.
\<close>

theorem MergeCliques_nil_global_counterexample:
  "set (map set (MergeCliques [] [[1, 2, 3]])) \<noteq> set (map set [[1, 2, 3 :: ref]])"
  by (simp add: MergeCliques_def)

text \<open>
  Claim C6, amended. \<^verbatim>\<open>MergeCliques\<close> returns \<^verbatim>\<open>nil\<close> for a \<^verbatim>\<open>nil\<close> global list; the
  first merge is the assignment in the loop of \<^verbatim>\<open>main\<close>, which makes the incoming list
  the global list. Merging an empty incoming list leaves any global list unchanged, through
  \<^verbatim>\<open>MergeCliques\<close> and through the loop of \<^verbatim>\<open>main\<close> alike.
\<close>

theorem merge_empty_lists:
  "MergeCliques [] incoming = [] \<and> main_merge [] incoming = incoming \<and>
   MergeCliques global [] = global \<and> main_merge global [] = global"
  by (simp add: MergeCliques_def main_merge_def)

section \<open>Properties of the community graph\<close>

lemma common_pairs_Nil_right [simp]: "common_pairs a [] = 0"
  by (induction a) auto

lemma common_pairs_Cons_right:
  "common_pairs a (y # b) = count_list a y + common_pairs a b"
  by (induction a) auto

lemma common_pairs_commute: "common_pairs a b = common_pairs b a"
  by (induction a) (auto simp: common_pairs_Cons_right)

lemma shares_commute: "shares k a b = shares k b a"
  by (simp add: shares_def common_pairs_commute)

lemma Kminus1CommonNodes_common_eq:
  "Kminus1CommonNodes_common x b k c =
     (if c < k - 1 \<and> k - 1 \<le> c + int (count_list b x) then None
      else Some (c + int (count_list b x)))"
  by (induction b arbitrary: c) auto

lemma Kminus1CommonNodes_exam_eq:
  "Kminus1CommonNodes_exam a b k c =
     (if c < k - 1 \<and> k - 1 \<le> c + int (common_pairs a b) then None
      else Some (c + int (common_pairs a b)))"
proof (induction a arbitrary: c)
  case Nil
  then show ?case by simp
next
  case (Cons x a)
  show ?case
    by (simp add: Kminus1CommonNodes_common_eq Cons.IH)
qed

lemma Kminus1CommonNodes_eq:
  "associated_clique gn = Some a \<Longrightarrow> associated_clique node = Some b \<Longrightarrow>
   Kminus1CommonNodes gn node k = Some (shares k a b)"
  by (cases a) (auto simp: Kminus1CommonNodes_def Kminus1CommonNodes_exam_eq shares_def)

lemma assoc_nth:
  "map associated_clique g = map Some cl \<Longrightarrow> i < length g \<Longrightarrow>
   associated_clique (g ! i) = Some (cl ! i)"
proof -
  assume m: "map associated_clique g = map Some cl" and i: "i < length g"
  from m have len: "length g = length cl" by (metis length_map)
  from i have "associated_clique (g ! i) = map associated_clique g ! i" by simp
  also have "\<dots> = map Some cl ! i" using m by simp
  also have "\<dots> = Some (cl ! i)" using i len by simp
  finally show ?thesis .
qed

lemma assoc_update:
  "associated_clique x = associated_clique (g ! i) \<Longrightarrow>
   map associated_clique (g[i := x]) = map associated_clique g"
  by (metis list_update_id map_update)

lemma AddNeighbors_loop_eq:
  "map associated_clique g = map Some cl \<Longrightarrow> gn < length g \<Longrightarrow> \<forall>j \<in> set js. j < length g \<Longrightarrow>
   AddNeighbors_loop g js gn k =
     Some (g[gn := (g ! gn)\<lparr>neighbors := neighbors (g ! gn) @
             filter (\<lambda>j. gn \<noteq> j \<and> shares k (cl ! gn) (cl ! j)) js\<rparr>])"
proof (induction js arbitrary: g)
  case Nil
  then show ?case by simp
next
  case (Cons node js)
  have a: "associated_clique (g ! gn) = Some (cl ! gn)"
    using Cons.prems by (intro assoc_nth) auto
  have b: "associated_clique (g ! node) = Some (cl ! node)"
    using Cons.prems by (intro assoc_nth) auto
  have K: "Kminus1CommonNodes (g ! gn) (g ! node) k = Some (shares k (cl ! gn) (cl ! node))"
    using a b by (rule Kminus1CommonNodes_eq)
  show ?case
  proof (cases "gn \<noteq> node \<and> shares k (cl ! gn) (cl ! node)")
    case True
    let ?g = "g[gn := AddNeighbor (g ! gn) node]"
    have "map associated_clique ?g = map associated_clique g"
      by (rule assoc_update) (simp add: AddNeighbor_def)
    with Cons.prems(1) have m: "map associated_clique ?g = map Some cl" by simp
    have l: "gn < length ?g" "\<forall>j \<in> set js. j < length ?g" using Cons.prems by auto
    from Cons.IH [OF m l] True K Cons.prems(2) show ?thesis
      by (simp add: AddNeighbor_def)
  next
    case False
    have l: "\<forall>j \<in> set js. j < length g" using Cons.prems by auto
    from Cons.IH [OF Cons.prems(1,2) l] False K show ?thesis by auto
  qed
qed

lemma CreateCommunityGraph_loop_eq:
  "map associated_clique g = map Some cl \<Longrightarrow> \<forall>i \<in> set is. i < length g \<Longrightarrow> distinct is \<Longrightarrow>
   \<exists>g'. CreateCommunityGraph_loop g is k = Some g' \<and> length g' = length g \<and>
        map associated_clique g' = map Some cl \<and>
        (\<forall>i < length g. neighbors (g' ! i) =
           (if i \<in> set is
            then neighbors (g ! i) @
                 filter (\<lambda>j. i \<noteq> j \<and> shares k (cl ! i) (cl ! j)) [0..<length g]
            else neighbors (g ! i)))"
proof (induction "is" arbitrary: g)
  case Nil
  then show ?case by simp
next
  case (Cons n ns)
  let ?nb = "neighbors (g ! n) @ filter (\<lambda>j. n \<noteq> j \<and> shares k (cl ! n) (cl ! j)) [0..<length g]"
  let ?g = "g[n := (g ! n)\<lparr>neighbors := ?nb\<rparr>]"
  have n: "n < length g" using Cons.prems by simp
  have A: "AddNeighbors g n k = Some ?g"
    unfolding AddNeighbors_def using Cons.prems(1) n by (intro AddNeighbors_loop_eq) auto
  have "map associated_clique ?g = map associated_clique g"
    by (rule assoc_update) simp
  with Cons.prems(1) have m: "map associated_clique ?g = map Some cl" by simp
  have l: "\<forall>i \<in> set ns. i < length ?g" using Cons.prems by auto
  have d: "distinct ns" using Cons.prems by simp
  from Cons.IH [OF m l d] obtain g' where g':
    "CreateCommunityGraph_loop ?g ns k = Some g'" "length g' = length ?g"
    "map associated_clique g' = map Some cl"
    "\<forall>i < length ?g. neighbors (g' ! i) =
       (if i \<in> set ns
        then neighbors (?g ! i) @
             filter (\<lambda>j. i \<noteq> j \<and> shares k (cl ! i) (cl ! j)) [0..<length ?g]
        else neighbors (?g ! i))"
    by blast
  have nn: "n \<notin> set ns" using Cons.prems by simp
  have "\<forall>i < length g. neighbors (g' ! i) =
           (if i \<in> set (n # ns)
            then neighbors (g ! i) @
                 filter (\<lambda>j. i \<noteq> j \<and> shares k (cl ! i) (cl ! j)) [0..<length g]
            else neighbors (g ! i))"
  proof (intro allI impI)
    fix i assume i: "i < length g"
    with g'(4) have *: "neighbors (g' ! i) =
       (if i \<in> set ns
        then neighbors (?g ! i) @
             filter (\<lambda>j. i \<noteq> j \<and> shares k (cl ! i) (cl ! j)) [0..<length g]
        else neighbors (?g ! i))" by simp
    show "neighbors (g' ! i) =
           (if i \<in> set (n # ns)
            then neighbors (g ! i) @
                 filter (\<lambda>j. i \<noteq> j \<and> shares k (cl ! i) (cl ! j)) [0..<length g]
            else neighbors (g ! i))"
    proof (cases "i = n")
      case True
      with * nn n show ?thesis by simp
    next
      case False
      with * i show ?thesis by simp
    qed
  qed
  with g'(1,2,3) A show ?case by simp
qed

lemma CreateCommunityGraph_eq:
  "\<exists>cg. CreateCommunityGraph h cl k = Some cg \<and> length cg = length cl \<and>
        map associated_clique cg = map Some cl \<and>
        (\<forall>i < length cl. neighbors (cg ! i) =
           filter (\<lambda>j. i \<noteq> j \<and> shares k (cl ! i) (cl ! j)) [0..<length cl])"
proof (cases "cl = []")
  case True
  then show ?thesis by (simp add: CreateCommunityGraph_def)
next
  case False
  let ?g = "map (\<lambda>item. NewGraphNode (CreateLabel h item) (Some item)) cl"
  have m: "map associated_clique ?g = map Some cl"
    by (simp add: NewGraphNode_def comp_def)
  have l: "\<forall>i \<in> set [0..<length ?g]. i < length ?g" by simp
  have d: "distinct [0..<length ?g]" by simp
  from CreateCommunityGraph_loop_eq [OF m l d, of k] obtain g' where g':
    "CreateCommunityGraph_loop ?g [0..<length ?g] k = Some g'" "length g' = length ?g"
    "map associated_clique g' = map Some cl"
    "\<forall>i < length ?g. neighbors (g' ! i) =
       (if i \<in> set [0..<length ?g]
        then neighbors (?g ! i) @
             filter (\<lambda>j. i \<noteq> j \<and> shares k (cl ! i) (cl ! j)) [0..<length ?g]
        else neighbors (?g ! i))"
    by blast
  have "\<forall>i < length cl. neighbors (g' ! i) =
           filter (\<lambda>j. i \<noteq> j \<and> shares k (cl ! i) (cl ! j)) [0..<length cl]"
    using g'(4) by (simp add: NewGraphNode_def)
  with g'(1,2,3) False show ?thesis
    by (simp add: CreateCommunityGraph_def Let_def)
qed

lemma ccg_example:
  "CreateCommunityGraph model_heap [[1, 2, 3], [2, 3, 4], [5, 6, 7]] 3 =
     Some [\<lparr>label = ''v1,v2,v3'', neighbors = [1], associated_clique = Some [1, 2, 3]\<rparr>,
           \<lparr>label = ''v2,v3,v4'', neighbors = [0], associated_clique = Some [2, 3, 4]\<rparr>,
           \<lparr>label = ''v5,v6,v7'', neighbors = [], associated_clique = Some [5, 6, 7]\<rparr>]"
  by code_simp

text \<open>
  Claim C8. The community graph is undirected in effect: \<^verbatim>\<open>CreateCommunityGraph\<close>
  returns (it does not panic), and for two distinct community nodes \<open>a\<close> and \<open>b\<close> the
  node \<open>b\<close> is in the neighbor list of \<open>a\<close> exactly when \<open>a\<close> is in the neighbor list
  of \<open>b\<close>. It holds for every clique list and every \<open>k\<close>.
\<close>

theorem CreateCommunityGraph_undirected:
  "\<exists>cg. CreateCommunityGraph h clique_list k = Some cg \<and> length cg = length clique_list \<and>
        (\<forall>a < length cg. \<forall>b < length cg. a \<noteq> b \<longrightarrow>
           (b \<in> set (neighbors (cg ! a)) \<longleftrightarrow> a \<in> set (neighbors (cg ! b))))"
proof -
  from CreateCommunityGraph_eq [of h clique_list k] obtain cg where cg:
    "CreateCommunityGraph h clique_list k = Some cg" "length cg = length clique_list"
    "\<forall>i < length clique_list. neighbors (cg ! i) =
       filter (\<lambda>j. i \<noteq> j \<and> shares k (clique_list ! i) (clique_list ! j)) [0..<length clique_list]"
    by blast
  have "\<forall>a < length cg. \<forall>b < length cg. a \<noteq> b \<longrightarrow>
           (b \<in> set (neighbors (cg ! a)) \<longleftrightarrow> a \<in> set (neighbors (cg ! b)))"
    using cg(2,3) shares_commute [of k] by auto
  with cg(1,2) show ?thesis by blast
qed

theorem CreateCommunityGraph_undirected_witness:
  "\<exists>cg. CreateCommunityGraph model_heap [[1, 2, 3], [2, 3, 4], [5, 6, 7]] 3 = Some cg \<and>
     neighbors (cg ! 0) = [1] \<and> neighbors (cg ! 1) = [0] \<and>
     ((1 \<in> set (neighbors (cg ! 0))) = (0 \<in> set (neighbors (cg ! 1)))) \<and>
     ((2 \<in> set (neighbors (cg ! 0))) = (0 \<in> set (neighbors (cg ! 2))))"
proof -
  let ?cl = "[[1, 2, 3], [2, 3, 4], [5, 6, 7 :: ref]]"
  from CreateCommunityGraph_undirected [of model_heap ?cl 3] obtain cg where
    cg: "CreateCommunityGraph model_heap ?cl 3 = Some cg" "length cg = length ?cl"
      "\<forall>a < length cg. \<forall>b < length cg. a \<noteq> b \<longrightarrow>
         (b \<in> set (neighbors (cg ! a)) \<longleftrightarrow> a \<in> set (neighbors (cg ! b)))"
    by blast
  from cg(3) [rule_format, of 0 1] cg(2)
  have s1: "(1 \<in> set (neighbors (cg ! 0))) = (0 \<in> set (neighbors (cg ! 1)))" by simp
  from cg(3) [rule_format, of 0 2] cg(2)
  have s2: "(2 \<in> set (neighbors (cg ! 0))) = (0 \<in> set (neighbors (cg ! 2)))" by simp
  from cg(1) ccg_example have "neighbors (cg ! 0) = [1]" "neighbors (cg ! 1) = [0]" by auto
  with cg(1) s1 s2 show ?thesis by blast
qed

lemma count_list_distinct: "distinct b \<Longrightarrow> count_list b x = (if x \<in> set b then 1 else 0)"
  by (induction b) auto

lemma common_pairs_distinct:
  "distinct a \<Longrightarrow> distinct b \<Longrightarrow> common_pairs a b = card (set a \<inter> set b)"
proof (induction a)
  case Nil
  then show ?case by simp
next
  case (Cons x a)
  then have IH: "common_pairs a b = card (set a \<inter> set b)" by simp
  show ?case
  proof (cases "x \<in> set b")
    case True
    then have "set (x # a) \<inter> set b = insert x (set a \<inter> set b)" by auto
    moreover have "x \<notin> set a \<inter> set b" using Cons.prems by simp
    ultimately have "card (set (x # a) \<inter> set b) = Suc (card (set a \<inter> set b))" by simp
    with True IH Cons.prems show ?thesis by (simp add: count_list_distinct)
  next
    case False
    then have "set (x # a) \<inter> set b = set a \<inter> set b" by auto
    with False IH Cons.prems show ?thesis by (simp add: count_list_distinct)
  qed
qed

lemma card_inter_less:
  assumes "finite A" "finite B" "card A = n" "card B = n" "A \<noteq> B"
  shows "card (A \<inter> B) < n"
proof (rule ccontr)
  assume "\<not> card (A \<inter> B) < n"
  then have ge: "n \<le> card (A \<inter> B)" by simp
  have "card (A \<inter> B) \<le> card A" "card (A \<inter> B) \<le> card B"
    using assms(1,2) by (simp_all add: card_mono)
  with ge assms(3,4) have e: "card (A \<inter> B) = card A" "card (A \<inter> B) = card B" by simp_all
  have "A \<inter> B = A" using assms(1) e(1) by (intro card_subset_eq) simp_all
  moreover have "A \<inter> B = B" using assms(2) e(2) by (intro card_subset_eq) simp_all
  ultimately show False using assms(5) by simp
qed

text \<open>
  Claim C5. For a deduplicated list of k-cliques (every clique has \<open>k\<close> distinct nodes,
  no two cliques have the same member set) and \<open>k \<ge> 2\<close>, the community graph has one node
  per clique, carrying that clique, and for two distinct community nodes \<open>a\<close>, \<open>b\<close> the
  node \<open>b\<close> is a neighbor of \<open>a\<close> exactly when their cliques have exactly \<open>k - 1\<close>
  nodes in common.
\<close>

theorem community_edge_iff_kminus1:
  assumes k: "2 \<le> k"
    and cl: "\<forall>c \<in> set clique_list. distinct c \<and> int (length c) = k"
    and dd: "distinct (map set clique_list)"
  shows "\<exists>cg. CreateCommunityGraph h clique_list k = Some cg \<and>
           length cg = length clique_list \<and>
           map associated_clique cg = map Some clique_list \<and>
           (\<forall>a < length cg. \<forall>b < length cg. a \<noteq> b \<longrightarrow>
              (b \<in> set (neighbors (cg ! a)) \<longleftrightarrow>
               int (card (set (clique_list ! a) \<inter> set (clique_list ! b))) = k - 1))"
proof -
  from CreateCommunityGraph_eq [of h clique_list k] obtain cg where cg:
    "CreateCommunityGraph h clique_list k = Some cg" "length cg = length clique_list"
    "map associated_clique cg = map Some clique_list"
    "\<forall>i < length clique_list. neighbors (cg ! i) =
       filter (\<lambda>j. i \<noteq> j \<and> shares k (clique_list ! i) (clique_list ! j)) [0..<length clique_list]"
    by blast
  have "\<forall>a < length cg. \<forall>b < length cg. a \<noteq> b \<longrightarrow>
              (b \<in> set (neighbors (cg ! a)) \<longleftrightarrow>
               int (card (set (clique_list ! a) \<inter> set (clique_list ! b))) = k - 1)"
  proof (intro allI impI)
    fix a b assume a: "a < length cg" and b: "b < length cg" and ab: "a \<noteq> b"
    let ?A = "clique_list ! a" and ?B = "clique_list ! b"
    from a b cg(2) have mem: "?A \<in> set clique_list" "?B \<in> set clique_list" by simp_all
    with cl have dA: "distinct ?A" and dB: "distinct ?B"
      and lA: "int (length ?A) = k" and lB: "int (length ?B) = k" by blast+
    have cA: "card (set ?A) = nat k" using dA lA by (simp add: distinct_card)
    have cB: "card (set ?B) = nat k" using dB lB by (simp add: distinct_card)
    have "map set clique_list ! a \<noteq> map set clique_list ! b"
      using nth_eq_iff_index_eq [OF dd, of a b] a b ab cg(2) by simp
    then have ne: "set ?A \<noteq> set ?B" using a b cg(2) by simp
    have "card (set ?A \<inter> set ?B) < nat k"
      using cA cB ne by (intro card_inter_less [of "set ?A" "set ?B"]) auto
    then have le: "int (card (set ?A \<inter> set ?B)) \<le> k - 1" using k by linarith
    have "b \<in> set (neighbors (cg ! a)) \<longleftrightarrow> shares k ?A ?B"
      using cg(2,4) a b ab by simp
    also have "\<dots> \<longleftrightarrow> k - 1 \<le> int (card (set ?A \<inter> set ?B))"
      using k dA dB by (simp add: shares_def common_pairs_distinct)
    also have "\<dots> \<longleftrightarrow> int (card (set ?A \<inter> set ?B)) = k - 1" using le by auto
    finally show "b \<in> set (neighbors (cg ! a)) \<longleftrightarrow>
               int (card (set ?A \<inter> set ?B)) = k - 1" .
  qed
  with cg(1,2,3) show ?thesis by blast
qed

theorem community_edge_iff_kminus1_witness:
  "\<exists>cg. CreateCommunityGraph model_heap [[1, 2, 3], [2, 3, 4], [5, 6, 7]] 3 = Some cg \<and>
     length cg = 3 \<and>
     1 \<in> set (neighbors (cg ! 0)) \<and> int (card (set [1, 2, 3 :: ref] \<inter> set [2, 3, 4])) = 3 - 1 \<and>
     2 \<notin> set (neighbors (cg ! 0)) \<and> int (card (set [1, 2, 3 :: ref] \<inter> set [5, 6, 7])) \<noteq> 3 - 1"
proof -
  let ?cl = "[[1, 2, 3], [2, 3, 4], [5, 6, 7 :: ref]]"
  have h1: "2 \<le> (3 :: int)" by simp
  have h2: "\<forall>c \<in> set ?cl. distinct c \<and> int (length c) = 3" by simp
  have h3: "distinct (map set ?cl)" by auto
  from community_edge_iff_kminus1 [OF h1 h2 h3, of model_heap] obtain cg where
    cg: "CreateCommunityGraph model_heap ?cl 3 = Some cg" "length cg = length ?cl"
      "\<forall>a < length cg. \<forall>b < length cg. a \<noteq> b \<longrightarrow>
         (b \<in> set (neighbors (cg ! a)) \<longleftrightarrow>
          int (card (set (?cl ! a) \<inter> set (?cl ! b))) = 3 - 1)"
    by blast
  have c1: "int (card (set [1, 2, 3 :: ref] \<inter> set [2, 3, 4])) = 3 - 1" by simp
  have c2: "int (card (set [1, 2, 3 :: ref] \<inter> set [5, 6, 7])) \<noteq> 3 - 1" by simp
  from cg(3) [rule_format, of 0 1] cg(2) c1 have e1: "1 \<in> set (neighbors (cg ! 0))" by simp
  from cg(3) [rule_format, of 0 2] cg(2) c2 have e2: "2 \<notin> set (neighbors (cg ! 0))" by simp
  from cg(1,2) c1 c2 e1 e2 show ?thesis by simp
qed

section \<open>Properties of clique verification\<close>

lemma MakeCliqueList_j_iff:
  "MakeCliqueList_j h x rest \<longleftrightarrow> (\<forall>n \<in> set rest. IsConnected h x n)"
  by (induction rest) auto

lemma MakeCliqueList_i_iff:
  "MakeCliqueList_i h c \<longleftrightarrow> sorted_wrt (IsConnected h) c"
  by (induction c) (auto simp: MakeCliqueList_j_iff)

lemma MakeCliqueList_loop_eq:
  "MakeCliqueList_loop h cands a acc =
     rev (map (\<lambda>c. c @ [a]) (filter (MakeCliqueList_i h) cands)) @ acc"
  by (induction cands arbitrary: acc) auto

lemma MakeCliqueList_eq:
  "MakeCliqueList h cands a = rev (map (\<lambda>c. c @ [a]) (filter (MakeCliqueList_i h) cands))"
  by (simp add: MakeCliqueList_def MakeCliqueList_loop_eq)

lemma model_heap_symmetric:
  "\<forall>x y. x \<in> set (neighbors (model_heap y)) \<longrightarrow> y \<in> set (neighbors (model_heap x))"
  by (auto simp: model_heap_def model_node_def NewGraphNode_def split: if_splits)

text \<open>
  Claim C3. If the neighbor relation of the graph is symmetric and every node of every
  candidate is in the neighbor list of the examination node, then in every clique that
  \<^verbatim>\<open>MakeCliqueList\<close> emits any two members at different positions are connected in the
  graph: each is in the neighbor list of the other, the pairs with the examination node
  included. The clique is a candidate followed by the examination node, so it has \<open>k\<close>
  members, and \<open>k (k - 1) / 2\<close> pairs of them, when the candidates have \<open>k - 1\<close>.
  Connection is stated on the neighbor lists of the graph, not through the test the
  function itself applies.
\<close>

theorem MakeCliqueList_cliques_connected:
  assumes sym: "\<forall>x y. x \<in> set (neighbors (h y)) \<longrightarrow> y \<in> set (neighbors (h x))"
    and nb: "\<forall>c \<in> set candidate_list. set c \<subseteq> set (neighbors (h examination_node))"
  shows "\<forall>clique \<in> set (MakeCliqueList h candidate_list examination_node).
           (\<forall>p < length clique. \<forall>q < length clique. p \<noteq> q \<longrightarrow>
              clique ! p \<in> set (neighbors (h (clique ! q)))) \<and>
           (\<exists>c \<in> set candidate_list. clique = c @ [examination_node]) \<and>
           ((\<forall>c \<in> set candidate_list. int (length c) = k - 1) \<longrightarrow> int (length clique) = k)"
proof
  fix clique assume "clique \<in> set (MakeCliqueList h candidate_list examination_node)"
  then obtain c where c: "c \<in> set candidate_list" "MakeCliqueList_i h c"
    and clique: "clique = c @ [examination_node]"
    by (auto simp: MakeCliqueList_eq)
  from c(2) have "sorted_wrt (IsConnected h) c" by (simp add: MakeCliqueList_i_iff)
  then have sw: "\<forall>i j. i < j \<longrightarrow> j < length c \<longrightarrow> c ! i \<in> set (neighbors (h (c ! j)))"
    by (simp add: sorted_wrt_iff_nth_less IsConnected_def)
  have symc: "y \<in> set (neighbors (h x))" if "x \<in> set (neighbors (h y))" for x y
    using sym that by blast
  have inner: "c ! p \<in> set (neighbors (h (c ! q)))"
    if "p < length c" "q < length c" "p \<noteq> q" for p q
  proof (cases "p < q")
    case True
    with sw that show ?thesis by blast
  next
    case False
    with that have "q < p" by simp
    with sw that have "c ! q \<in> set (neighbors (h (c ! p)))" by blast
    then show ?thesis by (rule symc)
  qed
  have anchor: "c ! p \<in> set (neighbors (h examination_node))" if "p < length c" for p
  proof -
    from that have "c ! p \<in> set c" by simp
    with nb c(1) show ?thesis by auto
  qed
  have pairs: "clique ! p \<in> set (neighbors (h (clique ! q)))"
    if "p < length clique" "q < length clique" "p \<noteq> q" for p q
  proof (cases "p < length c")
    case pc: True
    show ?thesis
    proof (cases "q < length c")
      case True
      with pc that inner show ?thesis by (simp add: clique nth_append)
    next
      case False
      with that have "q = length c" by (simp add: clique)
      with pc anchor show ?thesis by (simp add: clique nth_append)
    qed
  next
    case False
    with that have p: "p = length c" by (simp add: clique)
    with that have q: "q < length c" by (simp add: clique)
    from anchor [OF q] have "examination_node \<in> set (neighbors (h (c ! q)))" by (rule symc)
    with p q show ?thesis by (simp add: clique nth_append)
  qed
  have "int (length clique) = k" if "\<forall>c \<in> set candidate_list. int (length c) = k - 1"
    using that c(1) by (simp add: clique)
  with pairs c(1) clique
  show "(\<forall>p < length clique. \<forall>q < length clique. p \<noteq> q \<longrightarrow>
              clique ! p \<in> set (neighbors (h (clique ! q)))) \<and>
           (\<exists>c \<in> set candidate_list. clique = c @ [examination_node]) \<and>
           ((\<forall>c \<in> set candidate_list. int (length c) = k - 1) \<longrightarrow> int (length clique) = k)"
    by blast
qed

text \<open>
  At node \<^verbatim>\<open>v5\<close> of the model graph with \<open>k = 3\<close>: four of the six candidates are
  emitted, among them \<^verbatim>\<open>v6 v7\<close>, whose three members are neighbors of each other;
  the candidates \<^verbatim>\<open>v3 v7\<close> and \<^verbatim>\<open>v6 v3\<close> are rejected, \<^verbatim>\<open>v3\<close> being a neighbor of
  neither \<^verbatim>\<open>v7\<close> nor \<^verbatim>\<open>v6\<close>.
\<close>

theorem MakeCliqueList_cliques_connected_witness:
  "MakeCliqueList model_heap (GetCliqueCandidates 3 (neighbors (model_heap 5))) 5 =
     [[6, 7, 5], [4, 7, 5], [6, 4, 5], [3, 4, 5]] \<and>
   int (length [6, 7, 5 :: ref]) = 3 \<and>
   6 \<in> set (neighbors (model_heap 7)) \<and> 7 \<in> set (neighbors (model_heap 6)) \<and>
   6 \<in> set (neighbors (model_heap 5)) \<and> 5 \<in> set (neighbors (model_heap 6)) \<and>
   7 \<in> set (neighbors (model_heap 5)) \<and> 5 \<in> set (neighbors (model_heap 7)) \<and>
   [3, 7] \<in> set (GetCliqueCandidates 3 (neighbors (model_heap 5))) \<and>
   [3, 7, 5] \<notin> set (MakeCliqueList model_heap (GetCliqueCandidates 3 (neighbors (model_heap 5))) 5) \<and>
   3 \<notin> set (neighbors (model_heap 7)) \<and>
   [6, 3] \<in> set (GetCliqueCandidates 3 (neighbors (model_heap 5))) \<and>
   [6, 3, 5] \<notin> set (MakeCliqueList model_heap (GetCliqueCandidates 3 (neighbors (model_heap 5))) 5) \<and>
   6 \<notin> set (neighbors (model_heap 3))"
proof -
  let ?cands = "GetCliqueCandidates 3 (neighbors (model_heap 5))"
  have n5: "neighbors (model_heap 5) = [3, 4, 6, 7]" by code_simp
  have "GetCliqueCandidates 3 [3, 4, 6, 7 :: ref] = [[3, 7], [6, 3], [3, 4], [6, 4], [4, 7], [6, 7]]"
    by code_simp
  with n5 have cands: "?cands = [[3, 7], [6, 3], [3, 4], [6, 4], [4, 7], [6, 7]]" by simp
  have nb: "\<forall>c \<in> set ?cands. set c \<subseteq> set (neighbors (model_heap 5))"
    unfolding cands unfolding n5 by simp
  have len: "\<forall>c \<in> set ?cands. int (length c) = 3 - 1"
    unfolding cands by simp
  have mk: "MakeCliqueList model_heap ?cands 5 = [[6, 7, 5], [4, 7, 5], [6, 4, 5], [3, 4, 5]]"
    unfolding cands by code_simp
  then have mem: "[6, 7, 5] \<in> set (MakeCliqueList model_heap ?cands 5)" by simp
  from MakeCliqueList_cliques_connected [OF model_heap_symmetric nb, of 3] mem
  have *: "\<forall>p < length [6, 7, 5 :: ref]. \<forall>q < length [6, 7, 5 :: ref]. p \<noteq> q \<longrightarrow>
              [6, 7, 5] ! p \<in> set (neighbors (model_heap ([6, 7, 5] ! q)))"
    and **: "(\<forall>c \<in> set ?cands. int (length c) = 3 - 1) \<longrightarrow> int (length [6, 7, 5 :: ref]) = 3"
    by blast+
  from ** len have l: "int (length [6, 7, 5 :: ref]) = 3" by blast
  from * [rule_format, of 0 1] * [rule_format, of 1 0] * [rule_format, of 0 2]
    * [rule_format, of 2 0] * [rule_format, of 1 2] * [rule_format, of 2 1]
  have edges:
    "6 \<in> set (neighbors (model_heap 7))" "7 \<in> set (neighbors (model_heap 6))"
    "6 \<in> set (neighbors (model_heap 5))" "5 \<in> set (neighbors (model_heap 6))"
    "7 \<in> set (neighbors (model_heap 5))" "5 \<in> set (neighbors (model_heap 7))"
    by simp_all
  have n7: "neighbors (model_heap 7) = [4, 5, 6, 8]" by code_simp
  have n3: "neighbors (model_heap 3) = [1, 2, 4, 5]" by code_simp
  have non: "3 \<notin> set (neighbors (model_heap 7))" "6 \<notin> set (neighbors (model_heap 3))"
    unfolding n7 n3 by simp_all
  have rej: "[3, 7, 5] \<notin> set (MakeCliqueList model_heap ?cands 5)"
    "[6, 3, 5] \<notin> set (MakeCliqueList model_heap ?cands 5)"
    unfolding mk by simp_all
  have cin: "[3, 7] \<in> set ?cands" "[6, 3] \<in> set ?cands" unfolding cands by simp_all
  from mk l edges non rej cin show ?thesis by blast
qed

section \<open>Properties of candidate generation\<close>

lemma IsDuplicate_search_eq:
  "IsDuplicate_search x item m =
     (if x \<in> set item then (if m - 1 = 0 then None else Some (m - 1)) else Some m)"
  by (induction item) auto

lemma IsDuplicate_item_eq:
  "1 \<le> m \<Longrightarrow>
   IsDuplicate_item cc item m \<longleftrightarrow> m \<le> int (length (filter (\<lambda>x. x \<in> set item) cc))"
proof (induction cc arbitrary: m)
  case Nil
  then show ?case by simp
next
  case (Cons x cc)
  show ?case
  proof (cases "x \<in> set item")
    case True
    show ?thesis
    proof (cases "m = 1")
      case True
      with \<open>x \<in> set item\<close> show ?thesis by (simp add: IsDuplicate_search_eq)
    next
      case False
      with Cons.prems have "1 \<le> m - 1" by simp
      from Cons.IH [OF this] False \<open>x \<in> set item\<close> show ?thesis
        by (auto simp: IsDuplicate_search_eq)
    qed
  next
    case False
    with Cons.IH [OF Cons.prems] show ?thesis by (simp add: IsDuplicate_search_eq)
  qed
qed

lemma filter_length_all:
  "length cc \<le> length (filter P cc) \<longleftrightarrow> (\<forall>x \<in> set cc. P x)"
proof
  assume "length cc \<le> length (filter P cc)"
  then have "length (filter P cc) = length cc" using length_filter_le [of P cc] by simp
  then show "\<forall>x \<in> set cc. P x" by (metis length_filter_less less_irrefl)
next
  assume "\<forall>x \<in> set cc. P x"
  then have "filter P cc = cc" by (simp add: filter_id_conv)
  then show "length cc \<le> length (filter P cc)" by simp
qed

lemma IsDuplicate_iff:
  "IsDuplicate cc clist \<longleftrightarrow> cc \<noteq> [] \<and> (\<exists>item \<in> set clist. set cc \<subseteq> set item)"
proof (cases "cc = []")
  case True
  have "IsDuplicate [] clist = False" by (induction clist) auto
  with True show ?thesis by simp
next
  case False
  then have m: "1 \<le> int (length cc)" by (cases cc) auto
  have "IsDuplicate cc clist \<longleftrightarrow> (\<exists>item \<in> set clist. set cc \<subseteq> set item)"
  proof (induction clist)
    case Nil
    then show ?case by simp
  next
    case (Cons item clist)
    have "IsDuplicate_item cc item (int (length cc)) \<longleftrightarrow> set cc \<subseteq> set item"
      using IsDuplicate_item_eq [OF m, of cc item] filter_length_all [of cc "\<lambda>x. x \<in> set item"]
      by auto
    with Cons show ?case by simp
  qed
  with False show ?thesis by simp
qed

lemma slots_mono: "set ret \<subseteq> set (GetCliqueCandidates_slots node item is ret)"
proof (induction "is" arbitrary: ret)
  case Nil
  then show ?case by simp
next
  case (Cons i "is")
  from Cons [of ret] Cons [of "item[i := node] # ret"] show ?case
    by (auto simp: Let_def)
qed

lemma slots_elems:
  "c \<in> set (GetCliqueCandidates_slots node item is ret) \<Longrightarrow>
   c \<in> set ret \<or> (\<exists>i \<in> set is. c = item[i := node])"
proof (induction "is" arbitrary: ret)
  case Nil
  then show ?case by simp
next
  case (Cons i "is")
  show ?case
  proof (cases "IsDuplicate (item[i := node]) ret")
    case True
    with Cons.prems have "c \<in> set (GetCliqueCandidates_slots node item is ret)" by simp
    from Cons.IH [OF this] show ?thesis by auto
  next
    case False
    with Cons.prems
    have "c \<in> set (GetCliqueCandidates_slots node item is (item[i := node] # ret))" by simp
    from Cons.IH [OF this] show ?thesis by auto
  qed
qed

lemma slots_distinct:
  "distinct (map set ret) \<Longrightarrow> item \<noteq> [] \<Longrightarrow>
   distinct (map set (GetCliqueCandidates_slots node item is ret))"
proof (induction "is" arbitrary: ret)
  case Nil
  then show ?case by simp
next
  case (Cons i "is")
  let ?new = "item[i := node]"
  show ?case
  proof (cases "IsDuplicate ?new ret")
    case True
    with Cons show ?thesis by simp
  next
    case False
    from Cons.prems(2) have "?new \<noteq> []" by simp
    with False have "set ?new \<notin> set ` set ret" by (auto simp: IsDuplicate_iff)
    with Cons.prems have "distinct (map set (?new # ret))" by simp
    from Cons.IH [OF this Cons.prems(2)] False show ?thesis by simp
  qed
qed

lemma slots_covers:
  "i \<in> set is \<Longrightarrow> item \<noteq> [] \<Longrightarrow>
   \<exists>c \<in> set (GetCliqueCandidates_slots node item is ret). set (item[i := node]) \<subseteq> set c"
proof (induction "is" arbitrary: ret)
  case Nil
  then show ?case by simp
next
  case (Cons j "is")
  let ?new = "item[j := node]"
  show ?case
  proof (cases "i = j")
    case True
    show ?thesis
    proof (cases "IsDuplicate ?new ret")
      case d: True
      then obtain c where "c \<in> set ret" "set ?new \<subseteq> set c" by (auto simp: IsDuplicate_iff)
      with slots_mono [of ret node item "is"] d True show ?thesis by auto
    next
      case d: False
      have "?new \<in> set (?new # ret)" by simp
      with slots_mono [of "?new # ret" node item "is"] d True show ?thesis by auto
    qed
  next
    case False
    with Cons.prems have "i \<in> set is" by simp
    from Cons.IH [OF this Cons.prems(2)] show ?thesis by (simp add: Let_def)
  qed
qed

lemma items_mono: "set ret \<subseteq> set (GetCliqueCandidates_items node items ret)"
proof (induction items arbitrary: ret)
  case Nil
  then show ?case by simp
next
  case (Cons item items)
  from Cons [of "GetCliqueCandidates_slots node item [0..<length item] ret"]
    slots_mono [of ret node item "[0..<length item]"]
  show ?case by auto
qed

lemma items_elems:
  "c \<in> set (GetCliqueCandidates_items node items ret) \<Longrightarrow>
   c \<in> set ret \<or> (\<exists>item \<in> set items. \<exists>i < length item. c = item[i := node])"
proof (induction items arbitrary: ret)
  case Nil
  then show ?case by simp
next
  case (Cons item items)
  from Cons.IH [of "GetCliqueCandidates_slots node item [0..<length item] ret"] Cons.prems
  have "c \<in> set (GetCliqueCandidates_slots node item [0..<length item] ret) \<or>
        (\<exists>item \<in> set items. \<exists>i < length item. c = item[i := node])" by simp
  then show ?case
  proof
    assume "c \<in> set (GetCliqueCandidates_slots node item [0..<length item] ret)"
    from slots_elems [OF this] show ?thesis by auto
  next
    assume "\<exists>item \<in> set items. \<exists>i < length item. c = item[i := node]"
    then show ?thesis by auto
  qed
qed

lemma items_distinct:
  "distinct (map set ret) \<Longrightarrow> [] \<notin> set items \<Longrightarrow>
   distinct (map set (GetCliqueCandidates_items node items ret))"
proof (induction items arbitrary: ret)
  case Nil
  then show ?case by simp
next
  case (Cons item items)
  from Cons.prems have "item \<noteq> []" by auto
  with Cons.prems(1)
  have "distinct (map set (GetCliqueCandidates_slots node item [0..<length item] ret))"
    by (rule slots_distinct)
  with Cons show ?case by simp
qed

lemma items_covers:
  "item \<in> set items \<Longrightarrow> i < length item \<Longrightarrow>
   \<exists>c \<in> set (GetCliqueCandidates_items node items ret). set (item[i := node]) \<subseteq> set c"
proof (induction items arbitrary: ret)
  case Nil
  then show ?case by simp
next
  case (Cons x items)
  show ?case
  proof (cases "x = item")
    case True
    from Cons.prems(2) have "i \<in> set [0..<length item]" "item \<noteq> []" by auto
    from slots_covers [OF this, of node ret] obtain c where
      "c \<in> set (GetCliqueCandidates_slots node item [0..<length item] ret)"
      "set (item[i := node]) \<subseteq> set c" by blast
    with items_mono [of "GetCliqueCandidates_slots node item [0..<length item] ret" node items] True
    show ?thesis by auto
  next
    case False
    with Cons.prems have "item \<in> set items" by simp
    from Cons.IH [OF this Cons.prems(2)] show ?thesis by simp
  qed
qed

lemma GetCliqueCandidates_rec:
  "2 \<le> k \<Longrightarrow> k - 1 < int (length (node # rest)) \<Longrightarrow>
   GetCliqueCandidates k (node # rest) =
     GetCliqueCandidates_items node (GetCliqueCandidates k rest) (GetCliqueCandidates k rest)"
  by (subst GetCliqueCandidates.simps) (simp add: Let_def)

lemma GetCliqueCandidates_elems:
  "c \<in> set (GetCliqueCandidates k xs) \<Longrightarrow> int (length c) = k - 1 \<and> set c \<subseteq> set xs"
proof (induction k xs arbitrary: c rule: GetCliqueCandidates.induct)
  case (1 k node_list)
  show ?case
  proof (cases "k < 2 \<or> int (length node_list) < k - 1")
    case True
    with "1.prems" show ?thesis by (auto simp: GetCliqueCandidates.simps)
  next
    case small: False
    show ?thesis
    proof (cases "int (length node_list) = k - 1")
      case True
      with small "1.prems" show ?thesis by (auto simp: GetCliqueCandidates.simps)
    next
      case False
      with small obtain node rest where nl: "node_list = node # rest"
        by (cases node_list) auto
      let ?R = "GetCliqueCandidates k rest"
      from small False nl have "GetCliqueCandidates k node_list = GetCliqueCandidates_items node ?R ?R"
        by (simp add: GetCliqueCandidates_rec)
      with "1.prems" have "c \<in> set (GetCliqueCandidates_items node ?R ?R)" by simp
      from items_elems [OF this] show ?thesis
      proof
        assume "c \<in> set ?R"
        with "1.IH" [of node rest c] small False nl show ?thesis by auto
      next
        assume "\<exists>item \<in> set ?R. \<exists>i < length item. c = item[i := node]"
        then obtain item i where it: "item \<in> set ?R" "i < length item" "c = item[i := node]"
          by blast
        from "1.IH" [of node rest item] small False nl it(1)
        have "int (length item) = k - 1" "set item \<subseteq> set rest" by auto
        with it(3) nl set_update_subset_insert [of item i node] show ?thesis by auto
      qed
    qed
  qed
qed

lemma GetCliqueCandidates_not_Nil: "[] \<notin> set (GetCliqueCandidates k xs)"
proof
  assume a: "[] \<in> set (GetCliqueCandidates k xs)"
  from GetCliqueCandidates_elems [OF a] have "k < 2" by simp
  then have "GetCliqueCandidates k xs = []" by (simp add: GetCliqueCandidates.simps)
  with a show False by simp
qed

lemma GetCliqueCandidates_distinct_sets: "distinct (map set (GetCliqueCandidates k xs))"
proof (induction k xs rule: GetCliqueCandidates.induct)
  case (1 k node_list)
  show ?case
  proof (cases "k < 2 \<or> int (length node_list) < k - 1 \<or> int (length node_list) = k - 1")
    case True
    then show ?thesis by (auto simp: GetCliqueCandidates.simps)
  next
    case False
    then obtain node rest where nl: "node_list = node # rest"
      by (cases node_list) auto
    let ?R = "GetCliqueCandidates k rest"
    from "1.IH" [of node rest] False nl have "distinct (map set ?R)" by auto
    then have "distinct (map set (GetCliqueCandidates_items node ?R ?R))"
      using GetCliqueCandidates_not_Nil by (rule items_distinct)
    moreover from False nl
    have "GetCliqueCandidates k node_list = GetCliqueCandidates_items node ?R ?R"
      by (simp add: GetCliqueCandidates_rec)
    ultimately show ?thesis by simp
  qed
qed

lemma GetCliqueCandidates_distinct_elems:
  "distinct xs \<Longrightarrow> c \<in> set (GetCliqueCandidates k xs) \<Longrightarrow> distinct c"
proof (induction k xs arbitrary: c rule: GetCliqueCandidates.induct)
  case (1 k node_list)
  show ?case
  proof (cases "k < 2 \<or> int (length node_list) < k - 1 \<or> int (length node_list) = k - 1")
    case True
    with "1.prems" show ?thesis by (auto simp: GetCliqueCandidates.simps split: if_splits)
  next
    case False
    then obtain node rest where nl: "node_list = node # rest"
      by (cases node_list) auto
    let ?R = "GetCliqueCandidates k rest"
    from nl "1.prems"(1) have dr: "distinct rest" and nr: "node \<notin> set rest" by simp_all
    from False nl have "GetCliqueCandidates k node_list = GetCliqueCandidates_items node ?R ?R"
      by (simp add: GetCliqueCandidates_rec)
    with "1.prems" have "c \<in> set (GetCliqueCandidates_items node ?R ?R)" by simp
    from items_elems [OF this] show ?thesis
    proof
      assume "c \<in> set ?R"
      with "1.IH" [of node rest c] False nl dr show ?thesis by auto
    next
      assume "\<exists>item \<in> set ?R. \<exists>i < length item. c = item[i := node]"
      then obtain item i where it: "item \<in> set ?R" "i < length item" "c = item[i := node]"
        by blast
      from "1.IH" [of node rest item] False nl dr it(1) have di: "distinct item" by auto
      from GetCliqueCandidates_elems [OF it(1)] nr have "node \<notin> set item" by auto
      with di it(3) show ?thesis by (simp add: distinct_list_update)
    qed
  qed
qed

lemma GetCliqueCandidates_sets:
  "distinct xs \<Longrightarrow> 2 \<le> k \<Longrightarrow> k - 1 \<le> int (length xs) \<Longrightarrow>
   set (map set (GetCliqueCandidates k xs)) = {S. S \<subseteq> set xs \<and> card S = nat (k - 1)}"
proof (induction k xs rule: GetCliqueCandidates.induct)
  case (1 k node_list)
  show ?case
  proof (cases "int (length node_list) = k - 1")
    case True
    with "1.prems" have R: "GetCliqueCandidates k node_list = [node_list]"
      by (simp add: GetCliqueCandidates.simps)
    from True "1.prems" have c: "card (set node_list) = nat (k - 1)"
      by (simp add: distinct_card)
    have "{S. S \<subseteq> set node_list \<and> card S = nat (k - 1)} = {set node_list}"
    proof (intro equalityI subsetI)
      fix S assume "S \<in> {S. S \<subseteq> set node_list \<and> card S = nat (k - 1)}"
      then have "S \<subseteq> set node_list" "card S = card (set node_list)" using c by simp_all
      then have "S = set node_list" by (intro card_subset_eq) simp_all
      then show "S \<in> {set node_list}" by simp
    next
      fix S assume "S \<in> {set node_list}"
      with c show "S \<in> {S. S \<subseteq> set node_list \<and> card S = nat (k - 1)}" by simp
    qed
    with R show ?thesis by simp
  next
    case False
    with "1.prems" have big: "k - 1 < int (length node_list)" by simp
    with "1.prems"(2) obtain node rest where nl: "node_list = node # rest"
      by (cases node_list) auto
    let ?R = "GetCliqueCandidates k rest"
    let ?m = "nat (k - 1)"
    from nl "1.prems"(1) have dr: "distinct rest" and nr: "node \<notin> set rest" by simp_all
    from big nl have lr: "k - 1 \<le> int (length rest)" by simp
    from "1.IH" [of node rest] "1.prems"(2) big False nl dr lr
    have IH: "set (map set ?R) = {S. S \<subseteq> set rest \<and> card S = ?m}" by auto
    from "1.prems"(2) big nl
    have R: "GetCliqueCandidates k node_list = GetCliqueCandidates_items node ?R ?R"
      by (simp add: GetCliqueCandidates_rec)
    have m1: "1 \<le> ?m" using "1.prems"(2) by simp
    show ?thesis
    proof (intro equalityI subsetI)
      fix S assume "S \<in> set (map set (GetCliqueCandidates k node_list))"
      then obtain c where c: "c \<in> set (GetCliqueCandidates k node_list)" "S = set c" by auto
      from GetCliqueCandidates_elems [OF c(1)] have "int (length c) = k - 1" "set c \<subseteq> set node_list"
        by simp_all
      moreover from GetCliqueCandidates_distinct_elems [OF "1.prems"(1) c(1)] have "distinct c" .
      ultimately show "S \<in> {S. S \<subseteq> set node_list \<and> card S = ?m}"
        using c(2) by (simp add: distinct_card)
    next
      fix S assume "S \<in> {S. S \<subseteq> set node_list \<and> card S = ?m}"
      then have S: "S \<subseteq> insert node (set rest)" "card S = ?m" using nl by simp_all
      have fS: "finite S" using S(1) by (rule finite_subset) simp
      show "S \<in> set (map set (GetCliqueCandidates k node_list))"
      proof (cases "node \<in> S")
        case False
        with S have "S \<in> {S. S \<subseteq> set rest \<and> card S = ?m}" by auto
        with IH have "S \<in> set (map set ?R)" by simp
        then obtain c where "c \<in> set ?R" "S = set c" by auto
        with items_mono [of ?R node ?R] R show ?thesis by auto
      next
        case True
        let ?T = "S - {node}"
        have cT: "card ?T = ?m - 1" using True fS S(2) by simp
        have Tr: "?T \<subseteq> set rest" using S(1) by auto
        have "card ?T < card (set rest)" using cT lr dr m1 by (simp add: distinct_card)
        then have "\<not> set rest \<subseteq> ?T" using fS by (metis card_mono finite_Diff not_less)
        then obtain y where y: "y \<in> set rest" "y \<notin> ?T" by auto
        have "card (insert y ?T) = ?m" using y(2) fS cT m1 by simp
        with Tr y(1) have "insert y ?T \<in> {S. S \<subseteq> set rest \<and> card S = ?m}" by simp
        with IH have "insert y ?T \<in> set (map set ?R)" by simp
        then obtain item where item: "item \<in> set ?R" "set item = insert y ?T" by auto
        from item(2) obtain i where i: "i < length item" "item ! i = y"
          by (metis in_set_conv_nth insertI1)
        from GetCliqueCandidates_distinct_elems [OF dr item(1)] have di: "distinct item" .
        have "set (item[i := node]) = insert node (set item - {item ! i})"
          using di i(1) by (rule set_update_distinct)
        also have "\<dots> = insert node ?T" using item(2) i(2) y(2) by auto
        also have "\<dots> = S" using True by auto
        finally have sn: "set (item[i := node]) = S" .
        from items_covers [OF item(1) i(1), of node ?R] obtain c where
          c: "c \<in> set (GetCliqueCandidates_items node ?R ?R)" "set (item[i := node]) \<subseteq> set c"
          by blast
        from c(1) R have cin: "c \<in> set (GetCliqueCandidates k node_list)" by simp
        from GetCliqueCandidates_elems [OF cin] have "int (length c) = k - 1" by simp
        moreover from GetCliqueCandidates_distinct_elems [OF "1.prems"(1) cin] have "distinct c" .
        ultimately have "card (set c) = ?m" by (simp add: distinct_card)
        with S(2) have "card S = card (set c)" by simp
        moreover have "S \<subseteq> set c" using c(2) sn by simp
        ultimately have "S = set c" by (intro card_subset_eq) simp_all
        with cin show ?thesis by auto
      qed
    qed
  qed
qed

text \<open>
  Claim C1. For a list of \<open>n\<close> pairwise distinct nodes and \<open>k \<ge> 2\<close> with
  \<open>n \<ge> k - 1\<close>, \<^verbatim>\<open>GetCliqueCandidates\<close> returns exactly \<open>n\<close> choose \<open>k - 1\<close>
  candidates, each of length \<open>k - 1\<close>, pairwise different as node sets, and their node sets
  are exactly the subsets of the input with \<open>k - 1\<close> elements.
\<close>

theorem GetCliqueCandidates_all_combinations:
  assumes "distinct node_list" "2 \<le> k" "k - 1 \<le> int (length node_list)"
  shows "length (GetCliqueCandidates k node_list) = length node_list choose nat (k - 1) \<and>
         (\<forall>c \<in> set (GetCliqueCandidates k node_list). int (length c) = k - 1) \<and>
         distinct (map set (GetCliqueCandidates k node_list)) \<and>
         set (map set (GetCliqueCandidates k node_list)) =
           {S. S \<subseteq> set node_list \<and> card S = nat (k - 1)}"
proof -
  let ?R = "GetCliqueCandidates k node_list"
  have d: "distinct (map set ?R)" by (rule GetCliqueCandidates_distinct_sets)
  have s: "set (map set ?R) = {S. S \<subseteq> set node_list \<and> card S = nat (k - 1)}"
    using assms by (rule GetCliqueCandidates_sets)
  have "length ?R = length (map set ?R)" by simp
  also have "\<dots> = card (set (map set ?R))" using distinct_card [OF d] by simp
  also have "\<dots> = card {S. S \<subseteq> set node_list \<and> card S = nat (k - 1)}" using s by simp
  also have "\<dots> = card (set node_list) choose nat (k - 1)" by (simp add: n_subsets)
  also have "\<dots> = length node_list choose nat (k - 1)" using assms(1) by (simp add: distinct_card)
  finally have l: "length ?R = length node_list choose nat (k - 1)" .
  have e: "\<forall>c \<in> set ?R. int (length c) = k - 1" using GetCliqueCandidates_elems by blast
  from l e d s show ?thesis by blast
qed

theorem GetCliqueCandidates_all_combinations_witness:
  "length (GetCliqueCandidates 3 [3, 4, 6, 7 :: ref]) = 6 \<and>
   distinct (map set (GetCliqueCandidates 3 [3, 4, 6, 7 :: ref])) \<and>
   set (map set (GetCliqueCandidates 3 [3, 4, 6, 7 :: ref])) =
     {S. S \<subseteq> set [3, 4, 6, 7 :: ref] \<and> card S = nat (3 - 1)} \<and>
   GetCliqueCandidates 3 [3, 4, 6, 7 :: ref] = [[3, 7], [6, 3], [3, 4], [6, 4], [4, 7], [6, 7]]"
proof -
  have h: "distinct [3, 4, 6, 7 :: ref]" "2 \<le> (3 :: int)" "(3 :: int) - 1 \<le> int (length [3, 4, 6, 7 :: ref])"
    by simp_all
  have c: "(4 :: nat) choose 2 = 6" by code_simp
  have e: "GetCliqueCandidates 3 [3, 4, 6, 7 :: ref] = [[3, 7], [6, 3], [3, 4], [6, 4], [4, 7], [6, 7]]"
    by code_simp
  from GetCliqueCandidates_all_combinations [OF h] c e show ?thesis by simp
qed

section \<open>The clique list of the whole graph\<close>

lemma NotRecorded_True_D:
  assumes "NotRecorded c d" "item \<in> set d" "length item = length c" "c \<noteq> []"
  shows "\<not> set item \<subseteq> set c"
proof
  assume "set item \<subseteq> set c"
  from NotRecorded_same_set [OF assms(2,3) this assms(4)] have "NotRecorded c d = False" .
  with assms(1) show False by simp
qed

lemma MergeCliques_loop_distinct:
  "distinct (map set d) \<Longrightarrow> \<forall>c \<in> set d \<union> set src. length c = n \<Longrightarrow> 0 < n \<Longrightarrow>
   distinct (map set (MergeCliques_loop d src))"
proof (induction src arbitrary: d)
  case Nil
  then show ?case by simp
next
  case (Cons c src)
  show ?case
  proof (cases "NotRecorded c d")
    case True
    from Cons.prems(2,3) have cn: "c \<noteq> []" by auto
    have "set c \<notin> set ` set d"
    proof
      assume "set c \<in> set ` set d"
      then obtain item where item: "item \<in> set d" "set item = set c" by auto
      with Cons.prems(2) have "length item = length c" by simp
      from NotRecorded_True_D [OF True item(1) this cn] item(2) show False by simp
    qed
    with Cons.prems(1) have "distinct (map set (d @ [c]))" by simp
    moreover have "\<forall>c \<in> set (d @ [c]) \<union> set src. length c = n" using Cons.prems(2) by auto
    ultimately have "distinct (map set (MergeCliques_loop (d @ [c]) src))"
      using Cons.prems(3) by (rule Cons.IH)
    with True show ?thesis by simp
  next
    case False
    have "\<forall>c \<in> set d \<union> set src. length c = n" using Cons.prems(2) by auto
    with Cons.prems(1) have "distinct (map set (MergeCliques_loop d src))"
      using Cons.prems(3) by (rule Cons.IH)
    with False show ?thesis by simp
  qed
qed

lemma MergeCliques_loop_elems:
  "set (MergeCliques_loop d src) \<subseteq> set d \<union> set src"
  using MergeCliques_loop_append [of d src] by auto

lemma main_merge_invariant:
  assumes "distinct (map set cl)" "\<forall>c \<in> set cl. length c = n"
    and "distinct (map set temp)" "\<forall>c \<in> set temp. length c = n" "0 < n"
  shows "distinct (map set (main_merge cl temp)) \<and> (\<forall>c \<in> set (main_merge cl temp). length c = n)"
proof (cases "cl = []")
  case True
  with assms show ?thesis by (simp add: main_merge_def)
next
  case False
  have "\<forall>c \<in> set cl \<union> set temp. length c = n" using assms(2,4) by auto
  with assms(1) have "distinct (map set (MergeCliques_loop cl temp))"
    using assms(5) by (rule MergeCliques_loop_distinct)
  moreover have "\<forall>c \<in> set (MergeCliques_loop cl temp). length c = n"
    using MergeCliques_loop_elems [of cl temp] assms(2,4) by auto
  ultimately show ?thesis using False by (simp add: main_merge_def MergeCliques_def)
qed

lemma insert_anchor_inj:
  assumes "a \<notin> set nbrs \<or> distinct nbrs"
    and c: "c \<in> set (GetCliqueCandidates k nbrs)" and c': "c' \<in> set (GetCliqueCandidates k nbrs)"
    and eq: "insert a (set c) = insert a (set c')"
  shows "set c = set c'"
  using assms(1)
proof
  assume "a \<notin> set nbrs"
  with GetCliqueCandidates_elems [OF c] GetCliqueCandidates_elems [OF c']
  have "a \<notin> set c" "a \<notin> set c'" by auto
  with eq show ?thesis by auto
next
  assume d: "distinct nbrs"
  from GetCliqueCandidates_elems [OF c] GetCliqueCandidates_elems [OF c']
  have "length c = length c'" by simp
  moreover from d c c' have "distinct c" "distinct c'"
    by (auto dest: GetCliqueCandidates_distinct_elems)
  ultimately have card: "card (set c) = card (set c')" by (simp add: distinct_card)
  show ?thesis
  proof (cases "a \<in> set c")
    case True
    show ?thesis
    proof (cases "a \<in> set c'")
      case True
      with \<open>a \<in> set c\<close> eq show ?thesis by (simp add: insert_absorb)
    next
      case False
      with True eq have "set c = insert a (set c')" by (simp add: insert_absorb)
      with False have "card (set c) = Suc (card (set c'))" by simp
      with card show ?thesis by simp
    qed
  next
    case False
    show ?thesis
    proof (cases "a \<in> set c'")
      case True
      with False eq have "set c' = insert a (set c)" by (simp add: insert_absorb)
      with False have "card (set c') = Suc (card (set c))" by simp
      with card show ?thesis by simp
    next
      case F: False
      with False eq show ?thesis by auto
    qed
  qed
qed

lemma MakeCliqueList_distinct_sets:
  assumes "a \<notin> set nbrs \<or> distinct nbrs"
  shows "distinct (map set (MakeCliqueList h (GetCliqueCandidates k nbrs) a))"
proof -
  let ?R = "GetCliqueCandidates k nbrs"
  let ?F = "filter (MakeCliqueList_i h) ?R"
  have dR: "distinct (map set ?R)" by (rule GetCliqueCandidates_distinct_sets)
  then have "distinct (map set ?F)" by (simp add: distinct_map_filter)
  then have dF: "distinct ?F" and iF: "inj_on set (set ?F)" by (simp_all add: distinct_map)
  have "inj_on (\<lambda>c. insert a (set c)) (set ?F)"
  proof (rule inj_onI)
    fix c c' assume c: "c \<in> set ?F" and c': "c' \<in> set ?F"
      and eq: "insert a (set c) = insert a (set c')"
    from c c' have "c \<in> set ?R" "c' \<in> set ?R" by simp_all
    with assms eq have "set c = set c'" by (intro insert_anchor_inj [of a nbrs c k c'])
    with iF c c' show "c = c'" by (simp add: inj_on_def)
  qed
  with dF have "distinct (map (\<lambda>c. insert a (set c)) ?F)" by (simp add: distinct_map)
  then show ?thesis by (simp add: MakeCliqueList_eq rev_map [symmetric] comp_def)
qed

lemma MakeCliqueList_lengths:
  "c \<in> set (MakeCliqueList h (GetCliqueCandidates k nbrs) a) \<Longrightarrow> int (length c) = k"
  using GetCliqueCandidates_elems [of _ k nbrs] by (auto simp: MakeCliqueList_eq)

lemma main_cliques_invariant:
  assumes "2 \<le> k"
  shows "\<forall>a \<in> set graph. a \<notin> set (neighbors (h a)) \<or> distinct (neighbors (h a)) \<Longrightarrow>
         distinct (map set cl) \<Longrightarrow> \<forall>c \<in> set cl. length c = nat k \<Longrightarrow>
         distinct (map set (main_cliques h k graph cl)) \<and>
         (\<forall>c \<in> set (main_cliques h k graph cl). length c = nat k)"
proof (induction graph arbitrary: cl)
  case Nil
  then show ?case by simp
next
  case (Cons node graph)
  let ?cands = "GetCliqueCandidates k (neighbors (h node))"
  let ?temp = "MakeCliqueList h ?cands node"
  from Cons.prems(1) have g: "\<forall>a \<in> set graph. a \<notin> set (neighbors (h a)) \<or> distinct (neighbors (h a))"
    and n: "node \<notin> set (neighbors (h node)) \<or> distinct (neighbors (h node))" by simp_all
  show ?case
  proof (cases "?cands \<noteq> []")
    case True
    have dt: "distinct (map set ?temp)" using n by (rule MakeCliqueList_distinct_sets)
    have lt: "\<forall>c \<in> set ?temp. length c = nat k"
    proof
      fix c assume "c \<in> set ?temp"
      then have "int (length c) = k" by (rule MakeCliqueList_lengths)
      then show "length c = nat k" by simp
    qed
    have pos: "0 < nat k" using assms by simp
    from main_merge_invariant [OF Cons.prems(2,3) dt lt pos]
    have "distinct (map set (main_merge cl ?temp))" "\<forall>c \<in> set (main_merge cl ?temp). length c = nat k"
      by simp_all
    from Cons.IH [OF g this] True show ?thesis by (simp add: Let_def)
  next
    case False
    from Cons.IH [OF g Cons.prems(2,3)] False show ?thesis by (simp add: Let_def)
  qed
qed

lemma main_cliques_small_k: "k < 2 \<Longrightarrow> main_cliques h k graph cl = cl"
  by (induction graph arbitrary: cl) (simp_all add: GetCliqueCandidates.simps Let_def)

text \<open>
  Claim C4, as stated, fails on the graph \<open>looped_heap\<close> with \<open>k = 3\<close>: the first
  per-anchor clique list becomes the global list as it is, and it holds the node slices
  \<open>[1, 1, 0]\<close> and \<open>[0, 1, 0]\<close>, both with the member set \<open>{0, 1}\<close>.
\<close>

theorem main_cliques_duplicate_counterexample:
  "\<not> distinct (map set (main_cliques looped_heap 3 [0, 1] []))"
proof -
  have e: "main_cliques looped_heap 3 [0, 1] [] = [[1, 1, 0], [0, 1, 0]]" by code_simp
  show ?thesis unfolding e by auto
qed

text \<open>
  Claim C4, amended. If every node of the graph either is not in its own neighbor list or
  has a neighbor list without repeated entries, then, after the loop of \<^verbatim>\<open>main\<close> has
  folded all per-anchor clique lists into the global list, no two entries of the global
  clique list have the same member set.
\<close>

theorem main_cliques_no_duplicate_cliques:
  assumes "\<forall>a \<in> set graph. a \<notin> set (neighbors (h a)) \<or> distinct (neighbors (h a))"
  shows "distinct (map set (main_cliques h k graph []))"
proof (cases "k < 2")
  case True
  then show ?thesis by (simp add: main_cliques_small_k)
next
  case False
  then have "2 \<le> k" by simp
  from main_cliques_invariant [OF this assms, of "[]"] show ?thesis by simp
qed

theorem main_cliques_no_duplicate_cliques_witness:
  "distinct (map set (main_cliques model_heap 3 model_graph [])) \<and>
   main_cliques model_heap 3 model_graph [] =
     [[2, 3, 1], [4, 5, 3], [6, 7, 4], [5, 7, 4], [6, 5, 4], [6, 7, 5], [7, 8, 6], [9, 10, 8]]"
proof -
  have h: "\<forall>a \<in> set model_graph. a \<notin> set (neighbors (model_heap a)) \<or> distinct (neighbors (model_heap a))"
    by (simp add: model_graph_def model_heap_def model_node_def NewGraphNode_def)
  have e: "main_cliques model_heap 3 model_graph [] =
     [[2, 3, 1], [4, 5, 3], [6, 7, 4], [5, 7, 4], [6, 5, 4], [6, 7, 5], [7, 8, 6], [9, 10, 8]]"
    by code_simp
  from main_cliques_no_duplicate_cliques [OF h, of 3] e show ?thesis by simp
qed

text \<open>
  Claim C2, as stated, fails: on the model graph with \<open>k = 3\<close> the pipeline finds the
  triangle of \<^verbatim>\<open>v8\<close>, \<^verbatim>\<open>v9\<close>, \<^verbatim>\<open>v10\<close> (the graph has the edge between
  \<^verbatim>\<open>v9\<close> and \<^verbatim>\<open>v10\<close>), the clique list has eight entries, not six, and so has the
  community graph.
\<close>

theorem model_graph_six_cliques_counterexample:
  "{8, 9, 10} \<in> set (map set (main_cliques model_heap 3 model_graph [])) \<and>
   length (main_cliques model_heap 3 model_graph []) = 8 \<and>
   map_option length
     (CreateCommunityGraph model_heap (main_cliques model_heap 3 model_graph []) 3) = Some 8"
proof -
  have e: "main_cliques model_heap 3 model_graph [] =
     [[2, 3, 1], [4, 5, 3], [6, 7, 4], [5, 7, 4], [6, 5, 4], [6, 7, 5], [7, 8, 6], [9, 10, 8]]"
    by code_simp
  have c: "map_option length
     (CreateCommunityGraph model_heap
        [[2, 3, 1], [4, 5, 3], [6, 7, 4], [5, 7, 4], [6, 5, 4], [6, 7, 5], [7, 8, 6], [9, 10, 8]] 3) =
     Some 8"
    by code_simp
  have "{8, 9, 10 :: ref} = set [9, 10, 8]" by auto
  then show ?thesis unfolding e using c by simp
qed

text \<open>
  Claim C2, amended. On the model graph with \<open>k = 3\<close> the pipeline yields a global clique
  list of eight entries whose member sets are exactly the eight triangles of the graph: the
  six of the claim and, in addition, \<open>{v4, v6, v7}\<close> and \<open>{v8, v9, v10}\<close>. The community
  graph has exactly eight nodes, with the labels and neighbor positions given.
\<close>

theorem model_graph_eight_cliques:
  "main_cliques model_heap 3 model_graph [] =
     [[2, 3, 1], [4, 5, 3], [6, 7, 4], [5, 7, 4], [6, 5, 4], [6, 7, 5], [7, 8, 6], [9, 10, 8]] \<and>
   set (map set (main_cliques model_heap 3 model_graph [])) =
     {{1, 2, 3}, {3, 4, 5}, {4, 5, 6}, {4, 5, 7}, {4, 6, 7}, {5, 6, 7}, {6, 7, 8}, {8, 9, 10}} \<and>
   map_option (map (\<lambda>n. (label n, neighbors n)))
     (CreateCommunityGraph model_heap (main_cliques model_heap 3 model_graph []) 3) =
     Some [(''v2,v3,v1'', []), (''v4,v5,v3'', [3, 4]), (''v6,v7,v4'', [3, 4, 5, 6]),
           (''v5,v7,v4'', [1, 2, 4, 5]), (''v6,v5,v4'', [1, 2, 3, 5]),
           (''v6,v7,v5'', [2, 3, 4, 6]), (''v7,v8,v6'', [2, 5]), (''v9,v10,v8'', [])]"
proof -
  have e: "main_cliques model_heap 3 model_graph [] =
     [[2, 3, 1], [4, 5, 3], [6, 7, 4], [5, 7, 4], [6, 5, 4], [6, 7, 5], [7, 8, 6], [9, 10, 8]]"
    by code_simp
  have c: "map_option (map (\<lambda>n. (label n, neighbors n)))
     (CreateCommunityGraph model_heap
        [[2, 3, 1], [4, 5, 3], [6, 7, 4], [5, 7, 4], [6, 5, 4], [6, 7, 5], [7, 8, 6], [9, 10, 8]] 3) =
     Some [(''v2,v3,v1'', []), (''v4,v5,v3'', [3, 4]), (''v6,v7,v4'', [3, 4, 5, 6]),
           (''v5,v7,v4'', [1, 2, 4, 5]), (''v6,v5,v4'', [1, 2, 3, 5]),
           (''v6,v7,v5'', [2, 3, 4, 6]), (''v7,v8,v6'', [2, 5]), (''v9,v10,v8'', [])]"
    by code_simp
  have s: "set (map set [[2, 3, 1], [4, 5, 3], [6, 7, 4], [5, 7, 4], [6, 5, 4], [6, 7, 5],
                          [7, 8, 6], [9, 10, 8 :: ref]]) =
     {{1, 2, 3}, {3, 4, 5}, {4, 5, 6}, {4, 5, 7}, {4, 6, 7}, {5, 6, 7}, {6, 7, 8}, {8, 9, 10}}"
  proof -
    have "{2, 3, 1 :: ref} = {1, 2, 3}" "{4, 5, 3 :: ref} = {3, 4, 5}" "{6, 7, 4 :: ref} = {4, 6, 7}"
      "{5, 7, 4 :: ref} = {4, 5, 7}" "{6, 5, 4 :: ref} = {4, 5, 6}" "{6, 7, 5 :: ref} = {5, 6, 7}"
      "{7, 8, 6 :: ref} = {6, 7, 8}" "{9, 10, 8 :: ref} = {8, 9, 10}" by auto
    then show ?thesis by (simp add: insert_commute)
  qed
  show ?thesis unfolding e using c s by simp
qed

section \<open>The effect of candidate generation on the store\<close>

lemma frame_refl: "frame st st"
  by (simp add: frame_def)

lemma frame_trans: "frame st st1 \<Longrightarrow> frame st1 st2 \<Longrightarrow> frame st st2"
  by (auto simp: frame_def)

lemma frame_make_slice: "make_slice st n = (st1, new) \<Longrightarrow> frame st st1"
  by (auto simp: make_slice_def frame_def nth_append)

lemma frame_slice_set:
  "length st0 \<le> array s \<Longrightarrow> frame st0 st \<Longrightarrow> frame st0 (slice_set st s i v)"
  by (auto simp: slice_set_def frame_def)

lemma frame_copy:
  "length st0 \<le> array new \<Longrightarrow> frame st0 st \<Longrightarrow>
   frame st0 (GetCliqueCandidates_copy_st st item new ks)"
  by (induction ks arbitrary: st) (auto simp: frame_slice_set)

lemma frame_slots:
  "GetCliqueCandidates_slots_st st node item is ret = (st', ret') \<Longrightarrow> frame st st'"
proof (induction "is" arbitrary: st ret)
  case Nil
  then show ?case by (simp add: frame_refl)
next
  case (Cons i "is")
  obtain st1 new where mk: "make_slice st (len item) = (st1, new)" by (cases "make_slice st (len item)")
  let ?st2 = "GetCliqueCandidates_copy_st st1 item new [0..<len item]"
  let ?st3 = "slice_set ?st2 new i node"
  from mk have a: "length st \<le> array new" by (auto simp: make_slice_def)
  from mk have "frame st st1" by (rule frame_make_slice)
  with a have "frame st ?st2" by (rule frame_copy)
  with a have f3: "frame st ?st3" by (rule frame_slice_set)
  from Cons.prems mk obtain r where "GetCliqueCandidates_slots_st ?st3 node item is r = (st', ret')"
    by (auto simp: Let_def split: if_splits)
  then have "frame ?st3 st'" by (rule Cons.IH)
  with f3 show ?case by (rule frame_trans)
qed

lemma frame_items:
  "GetCliqueCandidates_items_st st node items ret = (st', ret') \<Longrightarrow> frame st st'"
proof (induction items arbitrary: st ret)
  case Nil
  then show ?case by (simp add: frame_refl)
next
  case (Cons item items)
  obtain st1 ret1 where s: "GetCliqueCandidates_slots_st st node item [0..<len item] ret = (st1, ret1)"
    by (cases "GetCliqueCandidates_slots_st st node item [0..<len item] ret")
  then have f1: "frame st st1" by (rule frame_slots)
  from Cons.prems s have "GetCliqueCandidates_items_st st1 node items ret1 = (st', ret')" by simp
  then have "frame st1 st'" by (rule Cons.IH)
  with f1 show ?case by (rule frame_trans)
qed

lemma frame_GetCliqueCandidates_st:
  "GetCliqueCandidates_st k st node_list = (st', ret) \<Longrightarrow> frame st st'"
proof (induction k st node_list arbitrary: st' ret rule: GetCliqueCandidates_st.induct)
  case (1 k st node_list)
  show ?case
  proof (cases "k < 2 \<or> int (len node_list) < k - 1 \<or> int (len node_list) = k - 1")
    case True
    with "1.prems" have "st' = st"
      by (auto simp: GetCliqueCandidates_st.simps [of k st node_list] split: if_splits)
    then show ?thesis by (simp add: frame_refl)
  next
    case False
    obtain st1 cl where r: "GetCliqueCandidates_st k st (slice_from_1 node_list) = (st1, cl)"
      by (cases "GetCliqueCandidates_st k st (slice_from_1 node_list)")
    from "1.IH" [OF _ _ _ refl r] False have f1: "frame st st1" by simp
    from "1.prems" False r
    have "GetCliqueCandidates_items_st st1 (slice_get st node_list 0) cl cl = (st', ret)"
      by (simp add: GetCliqueCandidates_st.simps [of k st node_list] Let_def)
    then have "frame st1 st'" by (rule frame_items)
    with f1 show ?thesis by (rule frame_trans)
  qed
qed

text \<open>
  Claim C10. \<^verbatim>\<open>GetCliqueCandidates\<close> leaves its input list unchanged, for every \<open>k\<close> and
  every slice of an allocated array: after the call the slice holds the same node pointers
  in the same order; indeed every array that existed before the call is unchanged (the
  function writes only into arrays it has made). In the base case the store is the same
  and the one candidate is the input slice itself.
\<close>

theorem GetCliqueCandidates_input_unchanged:
  assumes "array node_list < length st"
    and "GetCliqueCandidates_st k st node_list = (st', candidates)"
  shows "slice_nodes st' node_list = slice_nodes st node_list \<and>
         (\<forall>a < length st. st' ! a = st ! a) \<and>
         (2 \<le> k \<and> int (len node_list) = k - 1 \<longrightarrow> st' = st \<and> candidates = [node_list])"
proof -
  from assms(2) have f: "frame st st'" by (rule frame_GetCliqueCandidates_st)
  have "st' = st \<and> candidates = [node_list]" if "2 \<le> k" "int (len node_list) = k - 1"
    using that assms(2) by (simp add: GetCliqueCandidates_st.simps [of k st node_list])
  with f assms(1) show ?thesis by (simp add: frame_def slice_nodes_def)
qed

theorem GetCliqueCandidates_input_unchanged_witness:
  "slice_nodes (fst (GetCliqueCandidates_st 3 v5_store v5_neighbors)) v5_neighbors =
     [Some 3, Some 4, Some 6, Some 7] \<and>
   slice_nodes v5_store v5_neighbors = [Some 3, Some 4, Some 6, Some 7] \<and>
   GetCliqueCandidates_st 3 v5_store v5_neighbors =
     ([[Some 3, Some 4, Some 6, Some 7], [Some 4, Some 7], [Some 6, Some 4], [Some 3, Some 4],
       [Some 6, Some 3], [Some 3, Some 7], [Some 4, Some 3], [Some 3, Some 7], [Some 6, Some 3]],
      [\<lparr>array = 5, low = 0, len = 2\<rparr>, \<lparr>array = 4, low = 0, len = 2\<rparr>,
       \<lparr>array = 3, low = 0, len = 2\<rparr>, \<lparr>array = 2, low = 0, len = 2\<rparr>,
       \<lparr>array = 1, low = 0, len = 2\<rparr>, \<lparr>array = 0, low = 2, len = 2\<rparr>])"
proof -
  have a: "array v5_neighbors < length v5_store" by (simp add: v5_neighbors_def v5_store_def)
  have e: "GetCliqueCandidates_st 3 v5_store v5_neighbors =
     ([[Some 3, Some 4, Some 6, Some 7], [Some 4, Some 7], [Some 6, Some 4], [Some 3, Some 4],
       [Some 6, Some 3], [Some 3, Some 7], [Some 4, Some 3], [Some 3, Some 7], [Some 6, Some 3]],
      [\<lparr>array = 5, low = 0, len = 2\<rparr>, \<lparr>array = 4, low = 0, len = 2\<rparr>,
       \<lparr>array = 3, low = 0, len = 2\<rparr>, \<lparr>array = 2, low = 0, len = 2\<rparr>,
       \<lparr>array = 1, low = 0, len = 2\<rparr>, \<lparr>array = 0, low = 2, len = 2\<rparr>])" by code_simp
  have b: "slice_nodes v5_store v5_neighbors = [Some 3, Some 4, Some 6, Some 7]" by code_simp
  from GetCliqueCandidates_input_unchanged [OF a e] b e show ?thesis by simp
qed

text \<open>
  The store model computes what the list model computes: the contents of the returned
  slices, read in the final store, are the candidates that \<open>GetCliqueCandidates\<close> gives
  for the contents of the input slice.
\<close>

lemma frame_slice:
  "frame st st' \<Longrightarrow> wf_slice st s \<Longrightarrow> wf_slice st' s \<and> slice_nodes st' s = slice_nodes st s"
  by (auto simp: frame_def wf_slice_def slice_nodes_def)

lemma frame_slices:
  "frame st st' \<Longrightarrow> \<forall>s \<in> set ss. wf_slice st s \<Longrightarrow>
   (\<forall>s \<in> set ss. wf_slice st' s) \<and> map (slice_nodes st') ss = map (slice_nodes st) ss"
  using frame_slice by auto

lemma length_slice_nodes: "wf_slice st s \<Longrightarrow> length (slice_nodes st s) = len s"
  by (auto simp: wf_slice_def slice_nodes_def)

lemma nth_slice_nodes: "wf_slice st s \<Longrightarrow> i < len s \<Longrightarrow> slice_nodes st s ! i = slice_get st s i"
  by (auto simp: wf_slice_def slice_nodes_def slice_get_def)

lemma copy_st_result:
  "a \<noteq> array item \<Longrightarrow> a < length st \<Longrightarrow>
   length (GetCliqueCandidates_copy_st st item \<lparr>array = a, low = 0, len = n\<rparr> ks) = length st \<and>
   length (GetCliqueCandidates_copy_st st item \<lparr>array = a, low = 0, len = n\<rparr> ks ! a) = length (st ! a) \<and>
   (\<forall>j < length (st ! a).
      GetCliqueCandidates_copy_st st item \<lparr>array = a, low = 0, len = n\<rparr> ks ! a ! j =
        (if j \<in> set ks then slice_get st item j else st ! a ! j))"
proof (induction ks arbitrary: st)
  case Nil
  then show ?case by simp
next
  case (Cons k ks)
  let ?new = "\<lparr>array = a, low = 0, len = n\<rparr>"
  let ?st = "slice_set st ?new k (slice_get st item k)"
  have l: "length ?st = length st" by (simp add: slice_set_def)
  have a: "?st ! a = (st ! a)[k := slice_get st item k]"
    using Cons.prems by (simp add: slice_set_def)
  have g: "slice_get ?st item j = slice_get st item j" for j
    using Cons.prems by (simp add: slice_set_def slice_get_def)
  from Cons.prems l have "a < length ?st" by simp
  from Cons.IH [OF Cons.prems(1) this] l a g show ?case
    by (auto simp: nth_list_update)
qed

lemma copy_st_fresh:
  assumes "wf_slice st item" "make_slice st (len item) = (st1, new)"
  shows "GetCliqueCandidates_copy_st st1 item new [0..<len item] ! array new = slice_nodes st item"
proof -
  let ?a = "length st"
  from assms(2) have new: "new = \<lparr>array = ?a, low = 0, len = len item\<rparr>"
    and st1: "st1 = st @ [replicate (len item) None]" by (auto simp: make_slice_def)
  from assms(1) have ne: "?a \<noteq> array item" by (auto simp: wf_slice_def)
  have lt: "?a < length st1" by (simp add: st1)
  have s1a: "st1 ! ?a = replicate (len item) None" by (simp add: st1)
  have g: "slice_get st1 item j = slice_get st item j" for j
    using assms(1) by (simp add: st1 slice_get_def wf_slice_def nth_append)
  let ?r = "GetCliqueCandidates_copy_st st1 item \<lparr>array = ?a, low = 0, len = len item\<rparr> [0..<len item]"
  from copy_st_result [OF ne lt, of "len item" "[0..<len item]"] s1a g
  have len: "length (?r ! ?a) = len item"
    and nth: "\<forall>j < len item. ?r ! ?a ! j = slice_get st item j" by auto
  have "?r ! ?a = slice_nodes st item"
  proof (rule nth_equalityI)
    show "length (?r ! ?a) = length (slice_nodes st item)"
      using len assms(1) by (simp add: length_slice_nodes)
  next
    fix j assume "j < length (?r ! ?a)"
    with len have "j < len item" by simp
    with nth assms(1) show "?r ! ?a ! j = slice_nodes st item ! j"
      by (simp add: nth_slice_nodes)
  qed
  then show ?thesis by (simp add: new)
qed

lemma new_candidate_st:
  assumes "wf_slice st item" "make_slice st (len item) = (st1, new)" "i < len item"
    and st3_def: "st3 = slice_set (GetCliqueCandidates_copy_st st1 item new [0..<len item]) new i node"
  shows "frame st st3 \<and> wf_slice st3 new \<and> slice_nodes st3 new = (slice_nodes st item)[i := node]"
proof -
  let ?st2 = "GetCliqueCandidates_copy_st st1 item new [0..<len item]"
  from assms(2) have new: "array new = length st" "low new = 0" "len new = len item"
    and st1: "st1 = st @ [replicate (len item) None]" by (auto simp: make_slice_def)
  from assms(2) have "frame st st1" by (rule frame_make_slice)
  with new(1) have f2: "frame st ?st2" by (intro frame_copy) simp_all
  with new(1) have f3: "frame st st3" unfolding st3_def by (intro frame_slice_set) simp_all
  have c: "?st2 ! array new = slice_nodes st item" using assms(1,2) by (rule copy_st_fresh)
  from assms(1) have ne: "length st \<noteq> array item" by (auto simp: wf_slice_def)
  have l2: "length ?st2 = length st1"
    using copy_st_result [OF ne, of st1 "len item" "[0..<len item]"] new
    by (cases new) (simp add: st1)
  then have lt: "array new < length ?st2" by (simp add: st1 new)
  from c new(1) have c': "?st2 ! length st = slice_nodes st item" by simp
  from lt new(1) have lt': "length st < length ?st2" by simp
  have a3: "st3 ! array new = (slice_nodes st item)[i := node]"
    using lt' by (simp add: st3_def slice_set_def c' new)
  have l3: "length st3 = length ?st2" by (simp add: st3_def slice_set_def)
  have "wf_slice st3 new"
    using lt l3 a3 assms(1) by (simp add: wf_slice_def new length_slice_nodes)
  moreover have "slice_nodes st3 new = (slice_nodes st item)[i := node]"
    using a3 assms(1) by (simp add: slice_nodes_def [of st3 new] new length_slice_nodes)
  ultimately show ?thesis using f3 by simp
qed

lemma slots_st_refines:
  "wf_slice st item \<Longrightarrow> \<forall>r \<in> set ret. wf_slice st r \<Longrightarrow> \<forall>i \<in> set is. i < len item \<Longrightarrow>
   GetCliqueCandidates_slots_st st node item is ret = (st', ret') \<Longrightarrow>
   frame st st' \<and> (\<forall>r \<in> set ret'. wf_slice st' r) \<and>
   map (slice_nodes st') ret' =
     GetCliqueCandidates_slots node (slice_nodes st item) is (map (slice_nodes st) ret)"
proof (induction "is" arbitrary: st ret)
  case Nil
  then show ?case by (simp add: frame_refl)
next
  case (Cons i "is")
  obtain st1 new where mk: "make_slice st (len item) = (st1, new)" by (cases "make_slice st (len item)")
  define st3 where "st3 = slice_set (GetCliqueCandidates_copy_st st1 item new [0..<len item]) new i node"
  from Cons.prems(3) have i: "i < len item" and "is": "\<forall>i \<in> set is. i < len item" by simp_all
  from new_candidate_st [OF Cons.prems(1) mk i st3_def]
  have f3: "frame st st3" and wn: "wf_slice st3 new"
    and cn: "slice_nodes st3 new = (slice_nodes st item)[i := node]" by simp_all
  from frame_slice [OF f3 Cons.prems(1)]
  have wi: "wf_slice st3 item" and ci: "slice_nodes st3 item = slice_nodes st item" by simp_all
  from frame_slices [OF f3 Cons.prems(2)]
  have wr: "\<forall>r \<in> set ret. wf_slice st3 r" and cr: "map (slice_nodes st3) ret = map (slice_nodes st) ret"
    by simp_all
  let ?dup = "IsDuplicate ((slice_nodes st item)[i := node]) (map (slice_nodes st) ret)"
  have dup: "IsDuplicate (slice_nodes st3 new) (map (slice_nodes st3) ret) = ?dup"
    by (simp only: cn cr)
  from Cons.prems(4) mk
  have step: "(if IsDuplicate (slice_nodes st3 new) (map (slice_nodes st3) ret) = False
               then GetCliqueCandidates_slots_st st3 node item is (new # ret)
               else GetCliqueCandidates_slots_st st3 node item is ret) = (st', ret')"
    by (auto simp: st3_def Let_def split: if_splits)
  show ?case
  proof (cases ?dup)
    case True
    with step dup
    have "GetCliqueCandidates_slots_st st3 node item is ret = (st', ret')" by simp
    from Cons.IH [OF wi wr "is" this] ci cr True frame_trans [OF f3]
    show ?thesis by (simp add: Let_def)
  next
    case False
    with step dup
    have "GetCliqueCandidates_slots_st st3 node item is (new # ret) = (st', ret')" by simp
    moreover have "\<forall>r \<in> set (new # ret). wf_slice st3 r" using wn wr by simp
    ultimately have I: "frame st3 st'" "\<forall>r \<in> set ret'. wf_slice st' r"
      "map (slice_nodes st') ret' =
        GetCliqueCandidates_slots node (slice_nodes st3 item) is (map (slice_nodes st3) (new # ret))"
      using Cons.IH [OF wi _ "is"] by blast+
    from I(3) have m: "map (slice_nodes st') ret' =
        GetCliqueCandidates_slots node (slice_nodes st item) is
          ((slice_nodes st item)[i := node] # map (slice_nodes st) ret)"
      by (simp only: list.map ci cn cr)
    from frame_trans [OF f3 I(1)] I(2) m False show ?thesis by (simp add: Let_def)
  qed
qed

lemma items_st_refines:
  "\<forall>r \<in> set items. wf_slice st r \<Longrightarrow> \<forall>r \<in> set ret. wf_slice st r \<Longrightarrow>
   GetCliqueCandidates_items_st st node items ret = (st', ret') \<Longrightarrow>
   frame st st' \<and> (\<forall>r \<in> set ret'. wf_slice st' r) \<and>
   map (slice_nodes st') ret' =
     GetCliqueCandidates_items node (map (slice_nodes st) items) (map (slice_nodes st) ret)"
proof (induction items arbitrary: st ret)
  case Nil
  then show ?case by (simp add: frame_refl)
next
  case (Cons item items)
  obtain st1 ret1 where s: "GetCliqueCandidates_slots_st st node item [0..<len item] ret = (st1, ret1)"
    by (cases "GetCliqueCandidates_slots_st st node item [0..<len item] ret")
  from Cons.prems(1) have wi: "wf_slice st item" and wis: "\<forall>r \<in> set items. wf_slice st r" by simp_all
  have "\<forall>i \<in> set [0..<len item]. i < len item" by simp
  from slots_st_refines [OF wi Cons.prems(2) this s]
  have f1: "frame st st1" and w1: "\<forall>r \<in> set ret1. wf_slice st1 r"
    and m1: "map (slice_nodes st1) ret1 =
      GetCliqueCandidates_slots node (slice_nodes st item) [0..<len item] (map (slice_nodes st) ret)"
    by simp_all
  from frame_slices [OF f1 wis]
  have wis1: "\<forall>r \<in> set items. wf_slice st1 r"
    and cis: "map (slice_nodes st1) items = map (slice_nodes st) items" by simp_all
  from Cons.prems(3) s have "GetCliqueCandidates_items_st st1 node items ret1 = (st', ret')" by simp
  from Cons.IH [OF wis1 w1 this] cis m1 wi frame_trans [OF f1] show ?case
    by (simp add: length_slice_nodes)
qed

lemma slice_from_1_nodes:
  "wf_slice st s \<Longrightarrow> 0 < len s \<Longrightarrow>
   wf_slice st (slice_from_1 s) \<and>
   slice_nodes st s = slice_get st s 0 # slice_nodes st (slice_from_1 s)"
proof -
  assume w: "wf_slice st s" and l: "0 < len s"
  from l obtain m where m: "len s = Suc m" by (cases "len s") auto
  from w m have "low s < length (st ! array s)" by (simp add: wf_slice_def)
  then have "drop (low s) (st ! array s) = st ! array s ! low s # drop (Suc (low s)) (st ! array s)"
    by (rule Cons_nth_drop_Suc [symmetric])
  with w m show ?thesis
    by (simp add: wf_slice_def slice_from_1_def slice_nodes_def slice_get_def)
qed

lemma GetCliqueCandidates_st_refines:
  "wf_slice st node_list \<Longrightarrow> GetCliqueCandidates_st k st node_list = (st', candidates) \<Longrightarrow>
   (\<forall>c \<in> set candidates. wf_slice st' c) \<and>
   map (slice_nodes st') candidates = GetCliqueCandidates k (slice_nodes st node_list)"
proof (induction k st node_list arbitrary: st' candidates rule: GetCliqueCandidates_st.induct)
  case (1 k st node_list)
  note len = length_slice_nodes [OF "1.prems"(1)]
  show ?case
  proof (cases "k < 2 \<or> int (len node_list) < k - 1 \<or> int (len node_list) = k - 1")
    case True
    with "1.prems" len show ?thesis
      by (auto simp: GetCliqueCandidates_st.simps [of k st node_list]
          GetCliqueCandidates.simps [of k "slice_nodes st node_list"] split: if_splits)
  next
    case False
    then have k: "2 \<le> k" and big: "k - 1 < int (len node_list)" by simp_all
    then have pos: "0 < len node_list" by simp
    obtain st1 cl where r: "GetCliqueCandidates_st k st (slice_from_1 node_list) = (st1, cl)"
      by (cases "GetCliqueCandidates_st k st (slice_from_1 node_list)")
    from slice_from_1_nodes [OF "1.prems"(1) pos]
    have w1: "wf_slice st (slice_from_1 node_list)"
      and cons: "slice_nodes st node_list =
        slice_get st node_list 0 # slice_nodes st (slice_from_1 node_list)" by simp_all
    from "1.IH" [OF _ _ _ refl w1 r] False
    have wcl: "\<forall>c \<in> set cl. wf_slice st1 c"
      and mcl: "map (slice_nodes st1) cl = GetCliqueCandidates k (slice_nodes st (slice_from_1 node_list))"
      by simp_all
    from "1.prems"(2) False r
    have "GetCliqueCandidates_items_st st1 (slice_get st node_list 0) cl cl = (st', candidates)"
      by (simp add: GetCliqueCandidates_st.simps [of k st node_list] Let_def)
    from items_st_refines [OF wcl wcl this] mcl
    have "\<forall>c \<in> set candidates. wf_slice st' c"
      and "map (slice_nodes st') candidates =
        GetCliqueCandidates_items (slice_get st node_list 0)
          (GetCliqueCandidates k (slice_nodes st (slice_from_1 node_list)))
          (GetCliqueCandidates k (slice_nodes st (slice_from_1 node_list)))" by simp_all
    moreover have "GetCliqueCandidates k (slice_nodes st node_list) =
        GetCliqueCandidates_items (slice_get st node_list 0)
          (GetCliqueCandidates k (slice_nodes st (slice_from_1 node_list)))
          (GetCliqueCandidates k (slice_nodes st (slice_from_1 node_list)))"
    proof -
      have "length (slice_nodes st (slice_from_1 node_list)) = len node_list - 1"
        using length_slice_nodes [OF w1] by (simp add: slice_from_1_def)
      with big pos
      have "k - 1 < int (length (slice_get st node_list 0 # slice_nodes st (slice_from_1 node_list)))"
        by simp
      from GetCliqueCandidates_rec [OF k this] cons show ?thesis by simp
    qed
    ultimately show ?thesis by simp
  qed
qed

section \<open>The parser and duplicate labels\<close>

text \<open>
  The branch of \<^verbatim>\<open>ParseGraphDefFile\<close> that builds the error
  \<^verbatim>\<open>duplicate node; unable to add to graph\<close> is never taken, whatever the library
  functions return and whatever the file holds.
\<close>

lemma ParseGraphDefFile_lines_no_duplicate_error:
  "ParseGraphDefFile_lines lib reads graph specs line_count \<noteq> Inl (g, DuplicateNode lbl)"
proof (induction reads arbitrary: graph specs line_count)
  case Nil
  then show ?case by simp
next
  case (Cons r reads)
  obtain line isPrefix where r: "r = (line, isPrefix)" by (cases r)
  show ?case
    using Cons.IH by (simp add: r Let_def split: option.splits prod.splits)
qed

lemma ParseGraphDefFile_neighbors_no_duplicate_error:
  "ParseGraphDefFile_neighbors graph n labels \<noteq> Inl (g, DuplicateNode lbl)"
  by (induction labels arbitrary: graph) (auto split: option.splits)

lemma ParseGraphDefFile_specs_no_duplicate_error:
  "ParseGraphDefFile_specs graph specs \<noteq> Inl (g, DuplicateNode lbl)"
proof (induction specs arbitrary: graph)
  case Nil
  then show ?case by simp
next
  case (Cons ns specs)
  show ?case
  proof (cases "ParseGraphDefFile_neighbors graph (spec_node ns) (Split (neighbor_str ns))")
    case (Inl e)
    with ParseGraphDefFile_neighbors_no_duplicate_error [of graph "spec_node ns" "Split (neighbor_str ns)" g lbl]
    show ?thesis by simp
  next
    case (Inr graph1)
    with Cons.IH show ?thesis by simp
  qed
qed

lemma ParseGraphDefFile_never_reports_duplicate:
  "snd (ParseGraphDefFile lib file) \<noteq> Some (DuplicateNode lbl)"
proof (cases "file")
  case None
  then show ?thesis by (simp add: ParseGraphDefFile_def)
next
  case (Some reads)
  show ?thesis
  proof (cases "ParseGraphDefFile_lines lib reads [] [] 1")
    case (Inl ge)
    obtain g e where ge: "ge = (g, e)" by (cases ge)
    with Inl ParseGraphDefFile_lines_no_duplicate_error [of lib reads "[]" "[]" 1 g lbl]
    have "e \<noteq> DuplicateNode lbl" by auto
    with Inl ge Some show ?thesis by (simp add: ParseGraphDefFile_def)
  next
    case (Inr gs)
    obtain graph specs where gs: "gs = (graph, specs)" by (cases gs)
    show ?thesis
    proof (cases "ParseGraphDefFile_specs graph specs")
      case Inl2: (Inl ge)
      obtain g e where ge: "ge = (g, e)" by (cases ge)
      with Inl2 ParseGraphDefFile_specs_no_duplicate_error [of graph specs g lbl]
      have "e \<noteq> DuplicateNode lbl" by auto
      with Inr gs Inl2 ge Some show ?thesis by (simp add: ParseGraphDefFile_def)
    next
      case Inr2: (Inr graph1)
      with Inr gs Some show ?thesis by (simp add: ParseGraphDefFile_def)
    qed
  qed
qed

text \<open>
  Claim C9 does not hold of the code: a file that declares the label \<^verbatim>\<open>v1\<close> twice is
  parsed without an error, into a graph with two nodes of that label. (The neighbor
  \<^verbatim>\<open>v1\<close> of \<^verbatim>\<open>v2\<close> is the first of them, at position 0.)
\<close>

theorem ParseGraphDefFile_accepts_duplicate_label:
  "ParseGraphDefFile ascii_lib
     (Some [(''v1: v2'', False), (''v2: v1'', False), (''v1: v2'', False)]) =
   ([\<lparr>label = ''v1'', neighbors = [1], associated_clique = None\<rparr>,
     \<lparr>label = ''v2'', neighbors = [0], associated_clique = None\<rparr>,
     \<lparr>label = ''v1'', neighbors = [1], associated_clique = None\<rparr>],
    None)"
  by code_simp

text \<open>
  The graph \<open>looped_heap\<close> is what the parser returns for the file with the lines
  \<^verbatim>\<open>a: a b b\<close> and \<^verbatim>\<open>b: a b\<close>.
\<close>

lemma looped_graph_parses:
  "ParseGraphDefFile ascii_lib (Some [(''a: a b b'', False), (''b: a b'', False)]) =
     ([looped_heap 0, looped_heap 1], None)"
  by code_simp

end
